theory Spec2Isabelle
  imports Main "HOL-Library.AList"
begin

section \<open>Data model\<close>

text \<open>
  The exceptions that the functions of \<^verbatim>\<open>alignment.py\<close> can raise.
\<close>

datatype error = RuntimeError | AssertionError | IndexError

text \<open>
  Scores are Python numbers. Every entry of the score matrix is an integer for integer
  scoring parameters; the running maximum starts at \<^verbatim>\<open>-float("inf")\<close>, which is
  the extra value \<open>MinusInf\<close>.
\<close>

datatype score = MinusInf | Num int

text \<open>\<^verbatim>\<open>H[ref_index][hyp_index] >= max_score\<close>\<close>

fun ge_score :: "int \<Rightarrow> score \<Rightarrow> bool" where
  "ge_score v MinusInf = True"
| "ge_score v (Num w) = (v \<ge> w)"

text \<open>\<^verbatim>\<open>score >= 0\<close>\<close>

fun score_nonneg :: "score \<Rightarrow> bool" where
  "score_nonneg MinusInf = False"
| "score_nonneg (Num v) = (v \<ge> 0)"

text \<open>
  One tuple of the aligner's output:
  \<^verbatim>\<open>(ref_word, hyp_word, ref_word_from_index, hyp_word_from_index,
   ref_word_to_index, hyp_word_to_index)\<close>.
\<close>

type_synonym 'a aligned = "'a \<times> 'a \<times> nat \<times> nat \<times> nat \<times> nat"

text \<open>
  The matrices \<^verbatim>\<open>H\<close> and \<^verbatim>\<open>bp\<close> are lists of rows. All index expressions of the
  source stay inside the \<open>(ref_len + 1) \<times> (hyp_len + 1)\<close> rectangle: the loops range over
  it, and the traceback starts inside it and only moves to smaller indices.
\<close>

definition mget :: "'v list list \<Rightarrow> nat \<Rightarrow> nat \<Rightarrow> 'v" where
  "mget M i j = M ! i ! j"

definition mset :: "'v list list \<Rightarrow> nat \<Rightarrow> nat \<Rightarrow> 'v \<Rightarrow> 'v list list" where
  "mset M i j v = M[i := (M ! i)[j := v]]"

type_synonym dp_state = "int list list \<times> (nat \<times> nat) list list \<times> score \<times> (nat \<times> nat)"

section \<open>The aligner\<close>

subsection \<open>Initialisation (lines 46 to 71)\<close>

text \<open>The inner loop over \<^verbatim>\<open>hyp_index\<close> that fills row 0 in full-hypothesis mode.\<close>

definition init_row0 ::
  "int \<Rightarrow> nat \<Rightarrow> int list list \<times> (nat \<times> nat) list list
    \<Rightarrow> int list list \<times> (nat \<times> nat) list list" where
  "init_row0 ins_score hyp_len =
     fold (\<lambda>hyp_index (H, bp).
             (mset H 0 hyp_index (mget H 0 (hyp_index - 1) + ins_score),
              mset bp 0 hyp_index (0, hyp_index - 1)))
          [1..<hyp_len + 1]"

text \<open>One iteration of the loop over \<^verbatim>\<open>ref_index\<close>.\<close>

definition init_step ::
  "int \<Rightarrow> bool \<Rightarrow> nat \<Rightarrow> nat \<Rightarrow> int list list \<times> (nat \<times> nat) list list
    \<Rightarrow> int list list \<times> (nat \<times> nat) list list" where
  "init_step ins_score align_full_hyp hyp_len ref_index =
     (\<lambda>(H, bp).
        let H = (if align_full_hyp
                 then H[ref_index := (replicate (hyp_len + 1) (- (int hyp_len + 2)))[0 := 0]]
                 else H[ref_index := replicate (hyp_len + 1) 0]);
            bp = bp[ref_index := replicate (hyp_len + 1) (0, 0)]
        in if align_full_hyp \<and> ref_index = 0
           then init_row0 ins_score hyp_len (H, bp)
           else (H, bp))"

definition init_matrices ::
  "int \<Rightarrow> bool \<Rightarrow> nat \<Rightarrow> nat \<Rightarrow> int list list \<times> (nat \<times> nat) list list" where
  "init_matrices ins_score align_full_hyp ref_len hyp_len =
     fold (init_step ins_score align_full_hyp hyp_len) [0..<ref_len + 1]
          (replicate (ref_len + 1) [], replicate (ref_len + 1) [])"

subsection \<open>The recurrence (lines 76 to 113)\<close>

text \<open>Substitution or match (lines 78 to 86).\<close>

definition try_sub ::
  "'a list \<Rightarrow> 'a list \<Rightarrow> ('a \<Rightarrow> 'a \<Rightarrow> int) \<Rightarrow> bool \<Rightarrow> nat \<Rightarrow> nat
    \<Rightarrow> int list list \<times> (nat \<times> nat) list list \<Rightarrow> int list list \<times> (nat \<times> nat) list list" where
  "try_sub ref hyp similarity_score_function align_full_hyp ref_index hyp_index =
     (\<lambda>(H, bp).
        let sub_or_ok = mget H (ref_index - 1) (hyp_index - 1)
                        + similarity_score_function (ref ! (ref_index - 1)) (hyp ! (hyp_index - 1))
        in if (\<not> align_full_hyp \<and> sub_or_ok > 0)
              \<or> (align_full_hyp \<and> sub_or_ok \<ge> mget H ref_index hyp_index)
           then (mset H ref_index hyp_index sub_or_ok,
                 mset bp ref_index hyp_index (ref_index - 1, hyp_index - 1))
           else (H, bp))"

text \<open>Deletion (lines 93 to 95).\<close>

definition try_del ::
  "int \<Rightarrow> nat \<Rightarrow> nat
    \<Rightarrow> int list list \<times> (nat \<times> nat) list list \<Rightarrow> int list list \<times> (nat \<times> nat) list list" where
  "try_del del_score ref_index hyp_index =
     (\<lambda>(H, bp).
        if mget H (ref_index - 1) hyp_index + del_score > mget H ref_index hyp_index
        then (mset H ref_index hyp_index (mget H (ref_index - 1) hyp_index + del_score),
              mset bp ref_index hyp_index (ref_index - 1, hyp_index))
        else (H, bp))"

text \<open>Insertion (lines 101 to 103).\<close>

definition try_ins ::
  "int \<Rightarrow> nat \<Rightarrow> nat
    \<Rightarrow> int list list \<times> (nat \<times> nat) list list \<Rightarrow> int list list \<times> (nat \<times> nat) list list" where
  "try_ins ins_score ref_index hyp_index =
     (\<lambda>(H, bp).
        if mget H ref_index (hyp_index - 1) + ins_score > mget H ref_index hyp_index
        then (mset H ref_index hyp_index (mget H ref_index (hyp_index - 1) + ins_score),
              mset bp ref_index hyp_index (ref_index, hyp_index - 1))
        else (H, bp))"

text \<open>The body of the inner loop: one cell of the matrix, then the running maximum.\<close>

definition cell_step ::
  "'a list \<Rightarrow> 'a list \<Rightarrow> ('a \<Rightarrow> 'a \<Rightarrow> int) \<Rightarrow> int \<Rightarrow> int \<Rightarrow> bool \<Rightarrow> nat \<Rightarrow> nat
    \<Rightarrow> dp_state \<Rightarrow> dp_state" where
  "cell_step ref hyp similarity_score_function del_score ins_score align_full_hyp
             ref_index hyp_index =
     (\<lambda>(H, bp, max_score, max_score_element).
        let (H, bp) = try_ins ins_score ref_index hyp_index
                        (try_del del_score ref_index hyp_index
                          (try_sub ref hyp similarity_score_function align_full_hyp
                                   ref_index hyp_index (H, bp)))
        in if (\<not> align_full_hyp \<or> hyp_index = length hyp)
              \<and> ge_score (mget H ref_index hyp_index) max_score
           then (H, bp, Num (mget H ref_index hyp_index), (ref_index, hyp_index))
           else (H, bp, max_score, max_score_element))"

definition fill_row ::
  "'a list \<Rightarrow> 'a list \<Rightarrow> ('a \<Rightarrow> 'a \<Rightarrow> int) \<Rightarrow> int \<Rightarrow> int \<Rightarrow> bool \<Rightarrow> nat
    \<Rightarrow> dp_state \<Rightarrow> dp_state" where
  "fill_row ref hyp similarity_score_function del_score ins_score align_full_hyp ref_index =
     fold (cell_step ref hyp similarity_score_function del_score ins_score align_full_hyp
                     ref_index)
          [1..<length hyp + 1]"

definition fill_matrices ::
  "'a list \<Rightarrow> 'a list \<Rightarrow> ('a \<Rightarrow> 'a \<Rightarrow> int) \<Rightarrow> int \<Rightarrow> int \<Rightarrow> bool
    \<Rightarrow> dp_state \<Rightarrow> dp_state" where
  "fill_matrices ref hyp similarity_score_function del_score ins_score align_full_hyp =
     fold (fill_row ref hyp similarity_score_function del_score ins_score align_full_hyp)
          [1..<length ref + 1]"

subsection \<open>The traceback (lines 115 to 170)\<close>

text \<open>\<^verbatim>\<open>xs[i-1] if i > 0 else eps_symbol\<close>\<close>

definition word_at :: "'a list \<Rightarrow> nat \<Rightarrow> 'a \<Rightarrow> 'a" where
  "word_at xs i eps_symbol = (if i > 0 then xs ! (i - 1) else eps_symbol)"

text \<open>
  The handler of \<^verbatim>\<open>except Exception\<close> (lines 164 to 168): it formats
  \<^verbatim>\<open>ref[prev_ref_index]\<close> and \<^verbatim>\<open>hyp[prev_hyp_index]\<close> for the log, which raises
  IndexError itself when an index is out of range, and raises RuntimeError otherwise.
\<close>

definition unexpected_entry :: "'a list \<Rightarrow> 'a list \<Rightarrow> nat \<Rightarrow> nat \<Rightarrow> error" where
  "unexpected_entry ref hyp prev_ref_index prev_hyp_index =
     (if prev_ref_index < length ref \<and> prev_hyp_index < length hyp
      then RuntimeError else IndexError)"

text \<open>
  The \<^verbatim>\<open>while\<close> loop. A step that does not leave the loop moves to a cell whose index
  sum is smaller by one or two (the two \<^verbatim>\<open>assert\<close>s and the final \<^verbatim>\<open>else\<close> reject
  everything else), so the loop terminates on every pair of matrices. The result is the
  list \<^verbatim>\<open>output\<close> and the variable \<^verbatim>\<open>score\<close> at loop exit.
\<close>

function traceback ::
  "'a list \<Rightarrow> 'a list \<Rightarrow> 'a \<Rightarrow> bool \<Rightarrow> int list list \<Rightarrow> (nat \<times> nat) list list
    \<Rightarrow> nat \<Rightarrow> nat \<Rightarrow> score \<Rightarrow> 'a aligned list \<Rightarrow> error + ('a aligned list \<times> score)" where
  "traceback ref hyp eps_symbol align_full_hyp H bp ref_index hyp_index score output =
     (if (\<not> align_full_hyp \<and> score_nonneg score) \<or> (align_full_hyp \<and> hyp_index > 0)
      then
        (case mget bp ref_index hyp_index of (prev_ref_index, prev_hyp_index) \<Rightarrow>
           if (prev_ref_index, prev_hyp_index) = (ref_index, hyp_index)
              \<or> (prev_ref_index, prev_hyp_index) = (0, 0)
           then
             (if mget H ref_index hyp_index \<noteq> 0
              then Inr (output @ [(word_at ref ref_index eps_symbol,
                                   word_at hyp hyp_index eps_symbol,
                                   prev_ref_index, prev_hyp_index, ref_index, hyp_index)],
                        Num (mget H prev_ref_index prev_hyp_index))
              else Inr (output, Num (mget H ref_index hyp_index)))
           else if ref_index = prev_ref_index + 1 \<and> hyp_index = prev_hyp_index + 1
           then
             traceback ref hyp eps_symbol align_full_hyp H bp prev_ref_index prev_hyp_index
               (Num (mget H prev_ref_index prev_hyp_index))
               (output @ [(word_at ref ref_index eps_symbol,
                           word_at hyp hyp_index eps_symbol,
                           prev_ref_index, prev_hyp_index, ref_index, hyp_index)])
           else if prev_hyp_index = hyp_index
           then
             (if int prev_ref_index = int ref_index - 1
              then
                traceback ref hyp eps_symbol align_full_hyp H bp prev_ref_index prev_hyp_index
                  (Num (mget H prev_ref_index prev_hyp_index))
                  (output @ [(word_at ref ref_index eps_symbol, eps_symbol,
                              prev_ref_index, prev_hyp_index, ref_index, hyp_index)])
              else Inl (unexpected_entry ref hyp prev_ref_index prev_hyp_index))
           else if prev_ref_index = ref_index
           then
             (if int prev_hyp_index = int hyp_index - 1
              then
                traceback ref hyp eps_symbol align_full_hyp H bp prev_ref_index prev_hyp_index
                  (Num (mget H prev_ref_index prev_hyp_index))
                  (output @ [(eps_symbol, word_at hyp hyp_index eps_symbol,
                              prev_ref_index, prev_hyp_index, ref_index, hyp_index)])
              else Inl (unexpected_entry ref hyp prev_ref_index prev_hyp_index))
           else Inl (unexpected_entry ref hyp prev_ref_index prev_hyp_index))
      else Inr (output, score))"
  by pat_completeness auto
termination
  by (relation "measure (\<lambda>(ref, hyp, eps_symbol, align_full_hyp, H, bp, ref_index, hyp_index,
                            score, output). ref_index + hyp_index)") auto

declare traceback.simps [simp del]

subsection \<open>The whole function\<close>

definition smith_waterman_alignment ::
  "'a list \<Rightarrow> 'a list \<Rightarrow> ('a \<Rightarrow> 'a \<Rightarrow> int) \<Rightarrow> int \<Rightarrow> int \<Rightarrow> 'a \<Rightarrow> bool
    \<Rightarrow> error + ('a aligned list \<times> score)" where
  "smith_waterman_alignment ref hyp similarity_score_function del_score ins_score
                            eps_symbol align_full_hyp =
     (let (H, bp) = init_matrices ins_score align_full_hyp (length ref) (length hyp);
          (H, bp, max_score, max_score_element) =
             fill_matrices ref hyp similarity_score_function del_score ins_score
               align_full_hyp (H, bp, MinusInf, (0, 0));
          (ref_index, hyp_index) = max_score_element
      in (case traceback ref hyp eps_symbol align_full_hyp H bp ref_index hyp_index
                 max_score [] of
            Inl e \<Rightarrow> Inl e
          | Inr (output, score) \<Rightarrow>
              if align_full_hyp \<or> score = Num 0
              then Inr (rev output, max_score)
              else Inl AssertionError))"

subsection \<open>The matrices as equations\<close>

text \<open>
  The rest of this section is used to reason about the loops above. \<open>dims\<close> says that a
  matrix has \<open>ref_len + 1\<close> rows of \<open>hyp_len + 1\<close> entries.
\<close>

definition dims :: "nat \<Rightarrow> nat \<Rightarrow> 'v list list \<Rightarrow> bool" where
  "dims R L M \<longleftrightarrow> length M = R + 1 \<and> (\<forall>i \<le> R. length (M ! i) = L + 1)"

text \<open>The pair \<open>(H[m][n], bp[m][n])\<close> that the initialisation leaves in a cell.\<close>

definition init_cell :: "int \<Rightarrow> bool \<Rightarrow> nat \<Rightarrow> nat \<Rightarrow> nat \<Rightarrow> int \<times> (nat \<times> nat)" where
  "init_cell ins_score align_full_hyp hyp_len m n =
     (if align_full_hyp
      then (if m = 0 then (int n * ins_score, (0, n - 1))
            else if n = 0 then (0, (0, 0))
            else (- (int hyp_len + 2), (0, 0)))
      else (0, (0, 0)))"

text \<open>
  The three conditional updates of one cell, as a function of the cell's initial content
  \<open>c0\<close> and of the three candidate scores.
\<close>

definition cell_of ::
  "bool \<Rightarrow> int \<times> (nat \<times> nat) \<Rightarrow> int \<Rightarrow> int \<Rightarrow> int \<Rightarrow> nat \<Rightarrow> nat \<Rightarrow> int \<times> (nat \<times> nat)" where
  "cell_of align_full_hyp c0 sub_or_ok del_cand ins_cand ref_index hyp_index =
     (let c1 = (if (\<not> align_full_hyp \<and> sub_or_ok > 0)
                   \<or> (align_full_hyp \<and> sub_or_ok \<ge> fst c0)
                then (sub_or_ok, (ref_index - 1, hyp_index - 1)) else c0);
          c2 = (if del_cand > fst c1 then (del_cand, (ref_index - 1, hyp_index)) else c1);
          c3 = (if ins_cand > fst c2 then (ins_cand, (ref_index, hyp_index - 1)) else c2)
      in c3)"

text \<open>The pair \<open>(H[m][n], bp[m][n])\<close> after the recurrence, by recursion on the indices.\<close>

fun dp_cell ::
  "'a list \<Rightarrow> 'a list \<Rightarrow> ('a \<Rightarrow> 'a \<Rightarrow> int) \<Rightarrow> int \<Rightarrow> int \<Rightarrow> bool \<Rightarrow> nat \<Rightarrow> nat
    \<Rightarrow> int \<times> (nat \<times> nat)" where
  "dp_cell ref hyp sim del_score ins_score full 0 n = init_cell ins_score full (length hyp) 0 n"
| "dp_cell ref hyp sim del_score ins_score full (Suc m) 0 =
     init_cell ins_score full (length hyp) (Suc m) 0"
| "dp_cell ref hyp sim del_score ins_score full (Suc m) (Suc n) =
     cell_of full (init_cell ins_score full (length hyp) (Suc m) (Suc n))
       (fst (dp_cell ref hyp sim del_score ins_score full m n) + sim (ref ! m) (hyp ! n))
       (fst (dp_cell ref hyp sim del_score ins_score full m (Suc n)) + del_score)
       (fst (dp_cell ref hyp sim del_score ins_score full (Suc m) n) + ins_score)
       (Suc m) (Suc n)"

text \<open>
  The running maximum and its cell after the rows \<open>1, \<dots>, k\<close> in full-hypothesis mode:
  only the last column is eligible.
\<close>

fun best_end ::
  "'a list \<Rightarrow> 'a list \<Rightarrow> ('a \<Rightarrow> 'a \<Rightarrow> int) \<Rightarrow> int \<Rightarrow> int \<Rightarrow> nat \<Rightarrow> score \<times> (nat \<times> nat)" where
  "best_end ref hyp sim del_score ins_score 0 = (MinusInf, (0, 0))"
| "best_end ref hyp sim del_score ins_score (Suc k) =
     (if ge_score (fst (dp_cell ref hyp sim del_score ins_score True (Suc k) (length hyp)))
                  (fst (best_end ref hyp sim del_score ins_score k))
      then (Num (fst (dp_cell ref hyp sim del_score ins_score True (Suc k) (length hyp))),
            (Suc k, length hyp))
      else best_end ref hyp sim del_score ins_score k)"

text \<open>
  The state of the two nested loops when the rows before \<open>k\<close> and, in row \<open>k\<close>, the
  columns before \<open>j\<close> are done.
\<close>

definition fill_inv ::
  "'a list \<Rightarrow> 'a list \<Rightarrow> ('a \<Rightarrow> 'a \<Rightarrow> int) \<Rightarrow> int \<Rightarrow> int \<Rightarrow> bool \<Rightarrow> nat \<Rightarrow> nat
    \<Rightarrow> dp_state \<Rightarrow> bool" where
  "fill_inv ref hyp sim del_score ins_score full k j =
     (\<lambda>(H, bp, max_score, max_score_element).
        dims (length ref) (length hyp) H \<and> dims (length ref) (length hyp) bp \<and>
        (\<forall>m \<le> length ref. \<forall>n \<le> length hyp.
           (mget H m n, mget bp m n) =
             (if m < k \<or> (m = k \<and> n < j)
              then dp_cell ref hyp sim del_score ins_score full m n
              else init_cell ins_score full (length hyp) m n)) \<and>
        (full \<and> hyp \<noteq> [] \<longrightarrow>
           (max_score, max_score_element) =
             best_end ref hyp sim del_score ins_score (if j \<le> length hyp then k - 1 else k)))"

text \<open>
  A list of records in the order in which the traceback emits them, leading from the cell
  \<open>(m, n)\<close> back to column 0 by single steps (diagonal, deletion or insertion).
\<close>

fun chain :: "nat \<Rightarrow> nat \<Rightarrow> 'a aligned list \<Rightarrow> bool" where
  "chain m n [] = (n = 0)"
| "chain m n ((r, h, pm, pn, m', n') # recs) =
     (m' = m \<and> n' = n \<and> n > 0 \<and>
      ((m = pm + 1 \<and> n = pn + 1) \<or> (m = pm + 1 \<and> n = pn) \<or> (m = pm \<and> n = pn + 1)) \<and>
      chain pm pn recs)"

text \<open>The index fields of a record, and the hypothesis indices that a record spans.\<close>

definition ref_from :: "'a aligned \<Rightarrow> nat" where
  "ref_from = (\<lambda>(r, h, rf, hf, rt, ht). rf)"

definition hyp_from :: "'a aligned \<Rightarrow> nat" where
  "hyp_from = (\<lambda>(r, h, rf, hf, rt, ht). hf)"

definition hyp_to :: "'a aligned \<Rightarrow> nat" where
  "hyp_to = (\<lambda>(r, h, rf, hf, rt, ht). ht)"

definition hyp_span :: "'a aligned \<Rightarrow> nat list" where
  "hyp_span p = [hyp_from p..<hyp_to p]"

text \<open>A record with the sentinel in both token slots.\<close>

definition both_eps :: "'a \<Rightarrow> 'a aligned \<Rightarrow> bool" where
  "both_eps eps_symbol = (\<lambda>(r, h, rest). r = eps_symbol \<and> h = eps_symbol)"

text \<open>A similarity function that scores a mismatch with 0, as a test input.\<close>

definition sim_01 :: "'a \<Rightarrow> 'a \<Rightarrow> int" where
  "sim_01 x y = (if x = y then 1 else 0)"

section \<open>Edit types\<close>

definition get_edit_type :: "'a \<Rightarrow> 'a \<Rightarrow> 'a \<Rightarrow> string" where
  "get_edit_type ref hyp eps =
     (if ref \<noteq> hyp \<and> \<not> (ref = eps \<or> hyp = eps) then ''sub''
      else if ref \<noteq> hyp \<and> ref = eps then ''ins''
      else if ref \<noteq> hyp \<and> hyp = eps then ''del''
      else ''cor'')"

text \<open>The scoring used by every caller in the file: \<^verbatim>\<open>lambda x, y: 2 if (x == y) else -1\<close>.\<close>

definition sim_fixed :: "'a \<Rightarrow> 'a \<Rightarrow> int" where
  "sim_fixed x y = (if x = y then 2 else - 1)"

definition align_and_calc_edit_types :: "string list \<Rightarrow> string list \<Rightarrow> error + string list" where
  "align_and_calc_edit_types ref_tok hyp_tok =
     (let eps = ''|'' in
      case smith_waterman_alignment ref_tok hyp_tok sim_fixed (- 1) (- 1) eps True of
        Inl e \<Rightarrow> Inl e
      | Inr (output, score) \<Rightarrow>
          Inr (map (\<lambda>(r, h, rest). get_edit_type r h eps) output))"

section \<open>Padding and n-grams\<close>

record 'a Alignment =
  ref :: 'a
  hyp :: 'a
  refi_from :: nat
  hypi_from :: nat
  refi_to :: "nat option"
  hypi_to :: "nat option"

text \<open>\<^verbatim>\<open>Alignment(*o)\<close>\<close>

definition Alignment_of :: "'a aligned \<Rightarrow> 'a Alignment" where
  "Alignment_of = (\<lambda>(r, h, rf, hf, rt, ht).
     \<lparr>ref = r, hyp = h, refi_from = rf, hypi_from = hf, refi_to = Some rt, hypi_to = Some ht\<rparr>)"

text \<open>
  \<^verbatim>\<open>alignments[0]\<close> and \<^verbatim>\<open>alignments[-1]\<close> raise IndexError on the empty list;
  \<^verbatim>\<open>ref_tok[i]\<close> for \<open>i\<close> in \<^verbatim>\<open>range(0, start)\<close> raises IndexError when \<open>start\<close>
  exceeds the length of \<open>ref_tok\<close>.
\<close>

definition padded_alignments :: "'a list \<Rightarrow> 'a list \<Rightarrow> 'a \<Rightarrow> error + 'a Alignment list" where
  "padded_alignments ref_tok hyp_tok eps =
     (case smith_waterman_alignment ref_tok hyp_tok sim_fixed (- 1) (- 1) eps True of
        Inl e \<Rightarrow> Inl e
      | Inr (output, score) \<Rightarrow>
          let alignments = map Alignment_of output in
          if alignments = [] then Inl IndexError
          else
            let start = refi_from (hd alignments) in
            if start > length ref_tok then Inl IndexError
            else
              let padding_left =
                    map (\<lambda>i. \<lparr>ref = ref_tok ! i, hyp = eps, refi_from = i, hypi_from = 0,
                              refi_to = None, hypi_to = None\<rparr>) [0..<start];
                  endi = refi_from (last alignments);
                  padding_right =
                    map (\<lambda>i. \<lparr>ref = ref_tok ! i, hyp = eps, refi_from = i,
                              hypi_from = length hyp_tok, refi_to = None, hypi_to = None\<rparr>)
                        [endi + 1..<length ref_tok]
              in Inr (padding_left @ alignments @ padding_right))"

text \<open>The two lists of synthetic records, as functions of \<open>start\<close> and \<open>end\<close>.\<close>

definition pad_left :: "'a list \<Rightarrow> 'a \<Rightarrow> nat \<Rightarrow> 'a Alignment list" where
  "pad_left ref_tok eps start =
     map (\<lambda>i. \<lparr>ref = ref_tok ! i, hyp = eps, refi_from = i, hypi_from = 0,
               refi_to = None, hypi_to = None\<rparr>) [0..<start]"

definition pad_right :: "'a list \<Rightarrow> 'a list \<Rightarrow> 'a \<Rightarrow> nat \<Rightarrow> 'a Alignment list" where
  "pad_right ref_tok hyp_tok eps endi =
     map (\<lambda>i. \<lparr>ref = ref_tok ! i, hyp = eps, refi_from = i,
               hypi_from = length hyp_tok, refi_to = None, hypi_to = None\<rparr>)
         [endi + 1..<length ref_tok]"

text \<open>
  \<^verbatim>\<open>ri_to_alignment\<close> is a \<^verbatim>\<open>defaultdict(list)\<close>: an association list in insertion
  order, whose lookup gives the empty list for a missing key.
\<close>

definition getitem :: "(nat \<times> 'b list) list \<Rightarrow> nat \<Rightarrow> 'b list" where
  "getitem d k = (case map_of d k of None \<Rightarrow> [] | Some v \<Rightarrow> v)"

definition group_by_refi :: "'a Alignment list \<Rightarrow> (nat \<times> 'a Alignment list) list" where
  "group_by_refi alignments =
     fold (\<lambda>a d. AList.update (refi_from a) (getitem d (refi_from a) @ [a]) d) alignments []"

text \<open>Python's \<^verbatim>\<open>xs[a:b]\<close> for non-negative \<open>a\<close> and \<open>b\<close>.\<close>

definition slice :: "'a list \<Rightarrow> nat \<Rightarrow> nat \<Rightarrow> 'a list" where
  "slice xs a b = take (b - a) (drop a xs)"

text \<open>The body of the inner loop of the generator: \<^verbatim>\<open>ngram[0]\<close> raises on an empty window.\<close>

definition ngram_tuple ::
  "'a list \<Rightarrow> 'a list \<Rightarrow> (nat \<times> 'a Alignment list) list \<Rightarrow> nat \<Rightarrow> nat
    \<Rightarrow> error + ('a list \<times> 'a list)" where
  "ngram_tuple ref_tok hyp_tok ri_to_alignment o_len k =
     (let ngram = concat (map (getitem ri_to_alignment) [k..<k + o_len]) in
      if ngram = [] then Inl IndexError
      else
        let ref_ngram = slice ref_tok (refi_from (hd ngram)) (refi_from (last ngram) + 1);
            hyp_ngram = slice hyp_tok (hypi_from (hd ngram)) (hypi_from (last ngram) + 1)
        in Inr (hyp_ngram, ref_ngram))"

text \<open>The records of a list that start at reference position \<open>k\<close>, in order.\<close>

definition bucket :: "'a Alignment list \<Rightarrow> nat \<Rightarrow> 'a Alignment list" where
  "bucket alignments k = filter (\<lambda>a. refi_from a = k) alignments"

text \<open>
  The words of the specification for order 1, "the padded alignment's per-position pairs
  in order", as a function of the padded alignment: for each reference position the
  hypothesis tokens and the reference tokens of the records at that position, the
  sentinel standing for no token. It is compared with what the generator yields.
\<close>

definition spec_position_pairs ::
  "'a Alignment list \<Rightarrow> 'a \<Rightarrow> nat \<Rightarrow> ('a list \<times> 'a list) list" where
  "spec_position_pairs alignments eps n =
     map (\<lambda>k. (filter (\<lambda>t. t \<noteq> eps) (map hyp (bucket alignments k)),
                filter (\<lambda>t. t \<noteq> eps) (map ref (bucket alignments k))))
         [0..<n]"

text \<open>Consuming a generator to the end: the first exception ends it.\<close>

fun collect :: "(error + 'b) list \<Rightarrow> error + 'b list" where
  "collect [] = Inr []"
| "collect (x # xs) =
     (case x of
        Inl e \<Rightarrow> Inl e
      | Inr v \<Rightarrow> (case collect xs of Inl e \<Rightarrow> Inl e | Inr vs \<Rightarrow> Inr (v # vs)))"

text \<open>
  The generator, consumed to the end. \<^verbatim>\<open>padded_alignments\<close> is called with its default
  \<^verbatim>\<open>eps="|"\<close>.
\<close>

definition calc_aligned_ngram_tuples ::
  "string list \<Rightarrow> string list \<Rightarrow> int \<Rightarrow> error + (string list \<times> string list) list" where
  "calc_aligned_ngram_tuples ref_tok hyp_tok order =
     (case padded_alignments ref_tok hyp_tok ''|'' of
        Inl e \<Rightarrow> Inl e
      | Inr alignments \<Rightarrow>
          let ri_to_alignment = group_by_refi alignments in
          if \<not> list_all (\<lambda>(k, v). length v > 0) ri_to_alignment then Inl AssertionError
          else
            collect (concat (map (\<lambda>o_len.
                        map (ngram_tuple ref_tok hyp_tok ri_to_alignment o_len)
                            [0..<length ref_tok - (o_len - 1)])
                      [1..<nat (order + 1)])))"

section \<open>Degenerate inputs\<close>

lemma fold_id: "(\<And>x. x \<in> set xs \<Longrightarrow> f x = id) \<Longrightarrow> fold f xs s = s"
  by (induction xs arbitrary: s) auto

text \<open>With an empty reference or an empty hypothesis neither loop of the recurrence runs.\<close>

lemma fill_matrices_empty:
  "ref_tok = [] \<or> hyp_tok = [] \<Longrightarrow> fill_matrices ref_tok hyp_tok sim d i full st = st"
proof (erule disjE)
  assume "ref_tok = []"
  then show ?thesis by (simp add: fill_matrices_def)
next
  assume h: "hyp_tok = []"
  have "fill_row ref_tok hyp_tok sim d i full m = id" for m
    using h by (simp add: fill_row_def fun_eq_iff)
  then show ?thesis
    unfolding fill_matrices_def by (intro fold_id) simp
qed

lemma traceback_origin_full:
  "traceback ref_tok hyp_tok eps True H bp m 0 sc out = Inr (out, sc)"
  by (simp add: traceback.simps)

lemma traceback_minus_inf_local:
  "traceback ref_tok hyp_tok eps False H bp m n MinusInf out = Inr (out, MinusInf)"
  by (simp add: traceback.simps)

lemma swa_empty_full:
  assumes "ref_tok = [] \<or> hyp_tok = []"
  shows "smith_waterman_alignment ref_tok hyp_tok sim d i eps True = Inr ([], MinusInf)"
proof -
  obtain H bp where hb: "init_matrices i True (length ref_tok) (length hyp_tok) = (H, bp)"
    by (cases "init_matrices i True (length ref_tok) (length hyp_tok)")
  show ?thesis
    unfolding smith_waterman_alignment_def hb
    by (simp add: fill_matrices_empty [OF assms] traceback_origin_full)
qed

lemma swa_empty_local:
  assumes "ref_tok = [] \<or> hyp_tok = []"
  shows "smith_waterman_alignment ref_tok hyp_tok sim d i eps False = Inl AssertionError"
proof -
  obtain H bp where hb: "init_matrices i False (length ref_tok) (length hyp_tok) = (H, bp)"
    by (cases "init_matrices i False (length ref_tok) (length hyp_tok)")
  show ?thesis
    unfolding smith_waterman_alignment_def hb
    by (simp add: fill_matrices_empty [OF assms] traceback_minus_inf_local)
qed



text \<open>
  For \<open>ref = ["a", "b"]\<close> and \<open>hyp = []\<close> the result is therefore not the two deletion
  records with score \<open>2 * del_score\<close>.
\<close>

lemma swa_full_empty_hyp_no_deletions:
  "smith_waterman_alignment [''a'', ''b''] [] sim_fixed (- 1) (- 1) ''|'' True
     = Inr ([], MinusInf) \<and>
   smith_waterman_alignment [''a'', ''b''] [] sim_fixed (- 1) (- 1) ''|'' True
     \<noteq> Inr ([(''a'', ''|'', 0, 0, 1, 0), (''b'', ''|'', 1, 0, 2, 0)], Num (2 * (- 1)))"
  by (simp add: swa_empty_full)

text \<open>
  The initialisation of row 0 (lines 64 to 67) builds the chain of insertions for an empty
  reference, and the traceback emits it when it is started at the end of the hypothesis:
  here for the hypothesis \<open>["x", "y"]\<close>, in emission order. A leading insertion is also
  emitted from row 0 when the reference is not empty.
\<close>

lemma traceback_row0_emits_insertions:
  "init_matrices (- 1) True 0 2 = ([[0, - 1, - 2]], [[(0, 0), (0, 0), (0, 1)]]) \<and>
   traceback ([] :: string list) [''x'', ''y''] ''|'' True
       [[0, - 1, - 2]] [[(0, 0), (0, 0), (0, 1)]] 0 2 MinusInf []
     = Inr ([(''|'', ''y'', 0, 1, 0, 2), (''|'', ''x'', 0, 0, 0, 1)], Num 0)"
  by code_simp

lemma swa_leading_insertion:
  "smith_waterman_alignment [''a''] [''x'', ''a''] sim_fixed (- 1) (- 1) ''|'' True
     = Inr ([(''|'', ''x'', 0, 0, 0, 1), (''a'', ''a'', 0, 1, 1, 2)], Num 1)"
  by code_simp

text \<open>
  C7 at the empty input: in local mode the loop is not entered, \<open>score\<close> is still \<open>-inf\<close>,
  and the assertion \<^verbatim>\<open>assert (align_full_hyp or score == 0)\<close> fails.
\<close>

theorem swa_local_empty_assertion_fails:
  "ref_tok = [] \<or> hyp_tok = [] \<Longrightarrow>
   smith_waterman_alignment ref_tok hyp_tok sim del_score ins_score eps False
     = Inl AssertionError"
  by (rule swa_empty_local)

theorem swa_local_empty_assertion_fails_witness:
  "(([] :: string list) = [] \<or> [''a''] = []) \<and>
   smith_waterman_alignment [] [''a''] sim_fixed (- 1) (- 1) ''|'' False
     = Inl AssertionError"
  using swa_local_empty_assertion_fails [of "[]" "[''a'']" sim_fixed "- 1" "- 1" "''|''"]
  by simp

text \<open>
  C10: when the aligner returns no record, \<^verbatim>\<open>alignments[0]\<close> raises IndexError, and this
  is what happens for every empty hypothesis.
\<close>

theorem padded_alignments_needs_records:
  "(smith_waterman_alignment ref_tok hyp_tok sim_fixed (- 1) (- 1) eps True = Inr ([], sc)
      \<longrightarrow> padded_alignments ref_tok hyp_tok eps = Inl IndexError) \<and>
   (hyp_tok = [] \<longrightarrow> padded_alignments ref_tok hyp_tok eps = Inl IndexError)"
  by (simp add: padded_alignments_def swa_empty_full)

theorem padded_alignments_needs_records_witness:
  "smith_waterman_alignment [''a'', ''b''] [] sim_fixed (- 1) (- 1) ''|'' True
     = Inr ([], MinusInf) \<and>
   padded_alignments [''a'', ''b''] [] ''|'' = Inl IndexError"
  using padded_alignments_needs_records [of "[''a'', ''b'']" "[]" "''|''" MinusInf]
  by (simp add: swa_empty_full)

section \<open>The four edit types\<close>

text \<open>
  C9: the edit types of \<open>["a", "b", "c"]\<close> against \<open>["a", "x", "c"]\<close>, and the four cases
  of \<^verbatim>\<open>get_edit_type\<close> (the codes are \<open>cor\<close>, \<open>sub\<close>, \<open>ins\<close>, \<open>del\<close>); a pair never
  has the sentinel in both slots.
\<close>

theorem get_edit_type_cases:
  "align_and_calc_edit_types [''a'', ''b'', ''c''] [''a'', ''x'', ''c'']
     = Inr [''cor'', ''sub'', ''cor''] \<and>
   (r = h \<longrightarrow> get_edit_type r h eps = ''cor'') \<and>
   (r \<noteq> h \<and> r \<noteq> eps \<and> h \<noteq> eps \<longrightarrow> get_edit_type r h eps = ''sub'') \<and>
   (r = eps \<and> h \<noteq> eps \<longrightarrow> get_edit_type r h eps = ''ins'') \<and>
   (h = eps \<and> r \<noteq> eps \<longrightarrow> get_edit_type r h eps = ''del'')"
proof -
  have "align_and_calc_edit_types [''a'', ''b'', ''c''] [''a'', ''x'', ''c'']
          = Inr [''cor'', ''sub'', ''cor'']"
    by code_simp
  then show ?thesis
    by (auto simp: get_edit_type_def)
qed

theorem get_edit_type_cases_witness:
  "get_edit_type ''a'' ''a'' ''|'' = ''cor'' \<and>
   get_edit_type ''b'' ''x'' ''|'' = ''sub'' \<and>
   get_edit_type ''|'' ''x'' ''|'' = ''ins'' \<and>
   get_edit_type ''b'' ''|'' ''|'' = ''del''"
  using get_edit_type_cases [of "''a''" "''a''" "''|''"]
        get_edit_type_cases [of "''b''" "''x''" "''|''"]
        get_edit_type_cases [of "''|''" "''x''" "''|''"]
        get_edit_type_cases [of "''b''" "''|''" "''|''"]
  by simp

section \<open>The loops compute the recurrence\<close>

text \<open>A loop over a range, with an invariant indexed by the loop variable.\<close>

lemma fold_upt_rule:
  assumes "P a s" and "\<And>k s. a \<le> k \<Longrightarrow> k < b \<Longrightarrow> P k s \<Longrightarrow> P (Suc k) (f k s)" and "a \<le> b"
  shows "P b (fold f [a..<b] s)"
  using assms(3,2)
proof (induction b rule: dec_induct)
  case base
  show ?case using assms(1) by simp
next
  case (step n)
  have "P n (fold f [a..<n] s)"
    by (rule step.IH) (use step.prems in auto)
  then have "P (Suc n) (f n (fold f [a..<n] s))"
    using step.prems [of n] step.hyps by simp
  then show ?case using step.hyps by simp
qed

subsection \<open>Reading and writing a cell\<close>

lemma mget_mset:
  "i < length M \<Longrightarrow> j < length (M ! i) \<Longrightarrow>
   mget (mset M i j v) i' j' = (if i' = i \<and> j' = j then v else mget M i' j')"
  by (auto simp: mget_def mset_def nth_list_update)

lemma length_mset [simp]: "length (mset M i j v) = length M"
  by (simp add: mset_def)

lemma length_mset_row [simp]: "length (mset M i j v ! k) = length (M ! k)"
  by (cases "i < length M") (auto simp: mset_def nth_list_update list_update_beyond)

lemma dims_mset [simp]: "dims R L (mset M i j v) = dims R L M"
  by (simp add: dims_def)

lemma mget_mset_dims:
  "dims R L M \<Longrightarrow> i \<le> R \<Longrightarrow> j \<le> L \<Longrightarrow>
   mget (mset M i j v) i' j' = (if i' = i \<and> j' = j then v else mget M i' j')"
  by (rule mget_mset) (auto simp: dims_def)


subsection \<open>The initialisation\<close>

lemma init_row0_cells:
  assumes "0 < length H" "0 < length bp" "length (H ! 0) = L + 1" "length (bp ! 0) = L + 1"
    and "mget H 0 0 = 0"
    and "init_row0 i L (H, bp) = (H', bp')"
  shows "length H' = length H \<and> length bp' = length bp \<and>
         (\<forall>r. length (H' ! r) = length (H ! r)) \<and> (\<forall>r. length (bp' ! r) = length (bp ! r)) \<and>
         (\<forall>r c. mget H' r c = (if r = 0 \<and> 1 \<le> c \<and> c \<le> L then int c * i else mget H r c)) \<and>
         (\<forall>r c. mget bp' r c = (if r = 0 \<and> 1 \<le> c \<and> c \<le> L then (0, c - 1) else mget bp r c))"
proof -
  define P where "P k st \<longleftrightarrow> (case st of (H', bp') \<Rightarrow>
       length H' = length H \<and> length bp' = length bp \<and>
       (\<forall>r. length (H' ! r) = length (H ! r)) \<and> (\<forall>r. length (bp' ! r) = length (bp ! r)) \<and>
       (\<forall>r c. mget H' r c = (if r = 0 \<and> 1 \<le> c \<and> c < k then int c * i else mget H r c)) \<and>
       (\<forall>r c. mget bp' r c = (if r = 0 \<and> 1 \<le> c \<and> c < k then (0, c - 1) else mget bp r c)))"
    for k :: nat and st :: "int list list \<times> (nat \<times> nat) list list"
  let ?f = "\<lambda>hyp_index (H, bp).
             (mset H 0 hyp_index (mget H 0 (hyp_index - 1) + i),
              mset bp 0 hyp_index (0, hyp_index - 1))"
  have base: "P 1 (H, bp)" by (auto simp: P_def)
  have step: "P (Suc k) (?f k st)" if "1 \<le> k" "k < L + 1" "P k st" for k st
  proof -
    obtain H1 bp1 where st: "st = (H1, bp1)" by (cases st)
    have p: "length H1 = length H" "length bp1 = length bp"
      "\<And>r. length (H1 ! r) = length (H ! r)" "\<And>r. length (bp1 ! r) = length (bp ! r)"
      "\<And>r c. mget H1 r c = (if r = 0 \<and> 1 \<le> c \<and> c < k then int c * i else mget H r c)"
      "\<And>r c. mget bp1 r c = (if r = 0 \<and> 1 \<le> c \<and> c < k then (0, c - 1) else mget bp r c)"
      using that(3) by (auto simp: P_def st)
    have prev: "mget H1 0 (k - 1) + i = int k * i"
    proof (cases "k = 1")
      case True
      then show ?thesis using p(5) [of 0 0] assms(5) by simp
    next
      case False
      with that(1) have "1 \<le> k - 1" "k - 1 < k" by arith+
      then have "mget H1 0 (k - 1) = int (k - 1) * i"
        using p(5) [of 0 "k - 1"] by simp
      then show ?thesis using that(1) by (simp add: algebra_simps)
    qed
    have r1: "0 < length H1" "k < length (H1 ! 0)" "0 < length bp1" "k < length (bp1 ! 0)"
      using p(1-4) assms(1-4) that(2) by auto
    have eq: "?f k st = (mset H1 0 k (int k * i), mset bp1 0 k (0, k - 1))"
      using prev by (simp add: st)
    show ?thesis
      unfolding eq P_def
      using that(1) by (auto simp: mget_mset [OF r1(1,2)] mget_mset [OF r1(3,4)] p)
  qed
  have "P (L + 1) (fold ?f [1..<L + 1] (H, bp))"
    by (rule fold_upt_rule [where P = P, OF base step]) auto
  then show ?thesis
    using assms(6) by (simp add: init_row0_def P_def less_Suc_eq_le)
qed


lemma init_matrices_cells:
  assumes "init_matrices i full R L = (H, bp)"
  shows "dims R L H \<and> dims R L bp \<and>
         (\<forall>m \<le> R. \<forall>n \<le> L. (mget H m n, mget bp m n) = init_cell i full L m n)"
proof -
  define P where "P k st \<longleftrightarrow> (case st of (H, bp) \<Rightarrow>
       length H = R + 1 \<and> length bp = R + 1 \<and>
       (\<forall>m < k. length (H ! m) = L + 1 \<and> length (bp ! m) = L + 1 \<and>
          (\<forall>n \<le> L. (mget H m n, mget bp m n) = init_cell i full L m n)))"
    for k :: nat and st :: "int list list \<times> (nat \<times> nat) list list"
  have base: "P 0 (replicate (R + 1) [], replicate (R + 1) [])"
    by (simp add: P_def)
  have step: "P (Suc k) (init_step i full L k st)" if "k < R + 1" "P k st" for k st
  proof -
    obtain H0 bp0 where st: "st = (H0, bp0)" by (cases st)
    have p: "length H0 = R + 1" "length bp0 = R + 1"
      "\<And>m. m < k \<Longrightarrow> length (H0 ! m) = L + 1 \<and> length (bp0 ! m) = L + 1"
      "\<And>m n. m < k \<Longrightarrow> n \<le> L \<Longrightarrow> (mget H0 m n, mget bp0 m n) = init_cell i full L m n"
      using that(2) by (auto simp: P_def st)
    define H1 where "H1 = (if full
                 then H0[k := (replicate (L + 1) (- (int L + 2)))[0 := 0]]
                 else H0[k := replicate (L + 1) 0])"
    define bp1 where "bp1 = bp0[k := replicate (L + 1) (0::nat, 0::nat)]"
    have l1: "length H1 = R + 1" "length bp1 = R + 1"
      by (simp_all add: H1_def bp1_def p)
    have old: "H1 ! m = H0 ! m" "bp1 ! m = bp0 ! m" if "m < k" for m
      using that by (simp_all add: H1_def bp1_def)
    have rowk: "length (H1 ! k) = L + 1" "length (bp1 ! k) = L + 1"
      using that(1) by (simp_all add: H1_def bp1_def p)
    have cellk: "mget H1 k n = (if full then (if n = 0 then 0 else - (int L + 2)) else 0)"
      "mget bp1 k n = (0, 0)" if "n \<le> L" for n
      using that \<open>k < R + 1\<close> by (auto simp: H1_def bp1_def p mget_def nth_list_update nth_Cons')
    show ?thesis
    proof (cases "full \<and> k = 0")
      case True
      obtain H' bp' where r: "init_row0 i L (H1, bp1) = (H', bp')"
        by (cases "init_row0 i L (H1, bp1)")
      have res: "init_step i full L k st = (H', bp')"
        using True r by (simp add: init_step_def st H1_def bp1_def)
      have "mget H1 0 0 = 0" using cellk(1) [of 0] True by simp
      from init_row0_cells [OF _ _ _ _ this r] rowk l1 True
      have q: "length H' = length H1" "length bp' = length bp1"
        "\<And>r. length (H' ! r) = length (H1 ! r)" "\<And>r. length (bp' ! r) = length (bp1 ! r)"
        "\<And>r c. mget H' r c = (if r = 0 \<and> 1 \<le> c \<and> c \<le> L then int c * i else mget H1 r c)"
        "\<And>r c. mget bp' r c = (if r = 0 \<and> 1 \<le> c \<and> c \<le> L then (0, c - 1) else mget bp1 r c)"
        by auto
      show ?thesis
        unfolding res P_def
        using True rowk l1 cellk by (auto simp: q init_cell_def)
    next
      case False
      have res: "init_step i full L k st = (H1, bp1)"
        using False by (auto simp: init_step_def st H1_def bp1_def)
      have "length (H1 ! m) = L + 1 \<and> length (bp1 ! m) = L + 1 \<and>
          (\<forall>n \<le> L. (mget H1 m n, mget bp1 m n) = init_cell i full L m n)" if "m < Suc k" for m
      proof (cases "m = k")
        case True
        then show ?thesis using rowk cellk False by (auto simp: init_cell_def)
      next
        case False
        then have "m < k" using that by simp
        then show ?thesis using p(3,4) [of m] old [of m] by (simp add: mget_def)
      qed
      then show ?thesis
        unfolding res P_def using l1 by simp
    qed
  qed
  have "P (R + 1) (fold (init_step i full L) [0..<R + 1]
                     (replicate (R + 1) [], replicate (R + 1) []))"
    by (rule fold_upt_rule [where P = P, OF base step]) auto
  then show ?thesis
    using assms by (auto simp: init_matrices_def P_def dims_def less_Suc_eq_le)
qed


subsection \<open>One cell of the recurrence\<close>

lemma try_sub_cell:
  assumes "dims R L H" "dims R L bp" "k \<le> R" "j \<le> L"
  shows "\<exists>H' bp'. try_sub rs hs sim full k j (H, bp) = (H', bp') \<and>
           dims R L H' \<and> dims R L bp' \<and>
           (\<forall>m n. \<not> (m = k \<and> n = j) \<longrightarrow> mget H' m n = mget H m n \<and> mget bp' m n = mget bp m n) \<and>
           (mget H' k j, mget bp' k j) =
             (if (\<not> full \<and> mget H (k - 1) (j - 1) + sim (rs ! (k - 1)) (hs ! (j - 1)) > 0)
                 \<or> (full \<and> mget H (k - 1) (j - 1) + sim (rs ! (k - 1)) (hs ! (j - 1)) \<ge> mget H k j)
              then (mget H (k - 1) (j - 1) + sim (rs ! (k - 1)) (hs ! (j - 1)), (k - 1, j - 1))
              else (mget H k j, mget bp k j))"
  using assms
  by (simp add: try_sub_def Let_def mget_mset_dims [OF assms(1,3,4)]
                mget_mset_dims [OF assms(2,3,4)])

lemma try_del_cell:
  assumes "dims R L H" "dims R L bp" "k \<le> R" "j \<le> L"
  shows "\<exists>H' bp'. try_del d k j (H, bp) = (H', bp') \<and>
           dims R L H' \<and> dims R L bp' \<and>
           (\<forall>m n. \<not> (m = k \<and> n = j) \<longrightarrow> mget H' m n = mget H m n \<and> mget bp' m n = mget bp m n) \<and>
           (mget H' k j, mget bp' k j) =
             (if mget H (k - 1) j + d > mget H k j
              then (mget H (k - 1) j + d, (k - 1, j))
              else (mget H k j, mget bp k j))"
  using assms
  by (simp add: try_del_def mget_mset_dims [OF assms(1,3,4)]
                mget_mset_dims [OF assms(2,3,4)])

lemma try_ins_cell:
  assumes "dims R L H" "dims R L bp" "k \<le> R" "j \<le> L"
  shows "\<exists>H' bp'. try_ins i k j (H, bp) = (H', bp') \<and>
           dims R L H' \<and> dims R L bp' \<and>
           (\<forall>m n. \<not> (m = k \<and> n = j) \<longrightarrow> mget H' m n = mget H m n \<and> mget bp' m n = mget bp m n) \<and>
           (mget H' k j, mget bp' k j) =
             (if mget H k (j - 1) + i > mget H k j
              then (mget H k (j - 1) + i, (k, j - 1))
              else (mget H k j, mget bp k j))"
  using assms
  by (simp add: try_ins_def mget_mset_dims [OF assms(1,3,4)]
                mget_mset_dims [OF assms(2,3,4)])


lemma tries_cell:
  assumes "dims R L H" "dims R L bp" "1 \<le> k" "k \<le> R" "1 \<le> j" "j \<le> L"
  shows "\<exists>H' bp'.
           try_ins i k j (try_del d k j (try_sub rs hs sim full k j (H, bp))) = (H', bp') \<and>
           dims R L H' \<and> dims R L bp' \<and>
           (\<forall>m n. \<not> (m = k \<and> n = j) \<longrightarrow> mget H' m n = mget H m n \<and> mget bp' m n = mget bp m n) \<and>
           (mget H' k j, mget bp' k j) =
              cell_of full (mget H k j, mget bp k j)
                (mget H (k - 1) (j - 1) + sim (rs ! (k - 1)) (hs ! (j - 1)))
                (mget H (k - 1) j + d) (mget H k (j - 1) + i) k j"
proof -
  have ne: "\<not> (k - 1 = k \<and> j = j)" "\<not> (k = k \<and> j - 1 = j)"
    using assms(3,5) by arith+
  define s where "s = mget H (k - 1) (j - 1) + sim (rs ! (k - 1)) (hs ! (j - 1))"
  define c0 where "c0 = (mget H k j, mget bp k j)"
  from try_sub_cell [OF assms(1,2,4,6), of rs hs sim full]
  obtain H1 bp1 where t1: "try_sub rs hs sim full k j (H, bp) = (H1, bp1)"
    and d1: "dims R L H1" "dims R L bp1"
    and f1: "\<And>m n. \<not> (m = k \<and> n = j) \<Longrightarrow> mget H1 m n = mget H m n \<and> mget bp1 m n = mget bp m n"
    and e1: "(mget H1 k j, mget bp1 k j) =
             (if (\<not> full \<and> s > 0) \<or> (full \<and> s \<ge> fst c0)
              then (s, (k - 1, j - 1)) else c0)"
    unfolding s_def c0_def fst_conv by blast
  define c1 where "c1 = (mget H1 k j, mget bp1 k j)"
  from try_del_cell [OF d1 assms(4,6), of d]
  obtain H2 bp2 where t2: "try_del d k j (H1, bp1) = (H2, bp2)"
    and d2: "dims R L H2" "dims R L bp2"
    and f2: "\<And>m n. \<not> (m = k \<and> n = j) \<Longrightarrow> mget H2 m n = mget H1 m n \<and> mget bp2 m n = mget bp1 m n"
    and e2': "(mget H2 k j, mget bp2 k j) =
             (if mget H1 (k - 1) j + d > mget H1 k j
              then (mget H1 (k - 1) j + d, (k - 1, j)) else (mget H1 k j, mget bp1 k j))"
    by blast
  define c2 where "c2 = (mget H2 k j, mget bp2 k j)"
  have e2: "c2 = (if mget H (k - 1) j + d > fst c1 then (mget H (k - 1) j + d, (k - 1, j)) else c1)"
    using e2' f1 [OF ne(1)] by (simp add: c2_def c1_def)
  from try_ins_cell [OF d2 assms(4,6), of i]
  obtain H3 bp3 where t3: "try_ins i k j (H2, bp2) = (H3, bp3)"
    and d3: "dims R L H3" "dims R L bp3"
    and f3: "\<And>m n. \<not> (m = k \<and> n = j) \<Longrightarrow> mget H3 m n = mget H2 m n \<and> mget bp3 m n = mget bp2 m n"
    and e3': "(mget H3 k j, mget bp3 k j) =
             (if mget H2 k (j - 1) + i > mget H2 k j
              then (mget H2 k (j - 1) + i, (k, j - 1)) else (mget H2 k j, mget bp2 k j))"
    by blast
  have e3: "(mget H3 k j, mget bp3 k j) =
        (if mget H k (j - 1) + i > fst c2 then (mget H k (j - 1) + i, (k, j - 1)) else c2)"
    using e3' f2 [OF ne(2)] f1 [OF ne(2)] by (simp add: c2_def)
  have "cell_of full c0 s (mget H (k - 1) j + d) (mget H k (j - 1) + i) k j
          = (mget H3 k j, mget bp3 k j)"
    unfolding cell_of_def Let_def e3 e2 c1_def e1 ..
  moreover have "mget H3 m n = mget H m n \<and> mget bp3 m n = mget bp m n"
    if "\<not> (m = k \<and> n = j)" for m n
    using f1 [OF that] f2 [OF that] f3 [OF that] by simp
  ultimately show ?thesis
    using t1 t2 t3 d3 unfolding s_def c0_def by simp
qed


lemma dp_cell_step:
  "1 \<le> k \<Longrightarrow> 1 \<le> j \<Longrightarrow>
   dp_cell rs hs sim d i full k j =
     cell_of full (init_cell i full (length hs) k j)
       (fst (dp_cell rs hs sim d i full (k - 1) (j - 1)) + sim (rs ! (k - 1)) (hs ! (j - 1)))
       (fst (dp_cell rs hs sim d i full (k - 1) j) + d)
       (fst (dp_cell rs hs sim d i full k (j - 1)) + i) k j"
  by (cases k; cases j) simp_all

lemma dp_cell_col0: "dp_cell rs hs sim d i full m 0 = init_cell i full (length hs) m 0"
  by (cases m) simp_all

lemma best_end_step:
  "1 \<le> k \<Longrightarrow>
   best_end rs hs sim d i k =
     (if ge_score (fst (dp_cell rs hs sim d i True k (length hs)))
                  (fst (best_end rs hs sim d i (k - 1)))
      then (Num (fst (dp_cell rs hs sim d i True k (length hs))), (k, length hs))
      else best_end rs hs sim d i (k - 1))"
  by (cases k) simp_all

subsection \<open>The two nested loops\<close>

lemma cell_step_inv:
  assumes inv: "fill_inv rs hs sim d i full k j st"
    and b: "1 \<le> k" "k \<le> length rs" "1 \<le> j" "j \<le> length hs"
  shows "fill_inv rs hs sim d i full k (Suc j) (cell_step rs hs sim d i full k j st)"
proof -
  obtain H bp ms me where st: "st = (H, bp, ms, me)" by (cases st)
  have dm: "dims (length rs) (length hs) H" "dims (length rs) (length hs) bp"
    and cells: "\<And>m n. m \<le> length rs \<Longrightarrow> n \<le> length hs \<Longrightarrow>
           (mget H m n, mget bp m n) =
             (if m < k \<or> (m = k \<and> n < j) then dp_cell rs hs sim d i full m n
              else init_cell i full (length hs) m n)"
    and mx: "full \<and> hs \<noteq> [] \<Longrightarrow> (ms, me) = best_end rs hs sim d i (k - 1)"
    using inv b(4) by (auto simp: fill_inv_def st)
  have n0: "(mget H k j, mget bp k j) = init_cell i full (length hs) k j"
    using cells [of k j] b by simp
  have n1: "mget H (k - 1) (j - 1) = fst (dp_cell rs hs sim d i full (k - 1) (j - 1))"
    using cells [of "k - 1" "j - 1"] b by (simp add: prod_eq_iff)
  have n2: "mget H (k - 1) j = fst (dp_cell rs hs sim d i full (k - 1) j)"
    using cells [of "k - 1" j] b by (simp add: prod_eq_iff)
  have n3: "mget H k (j - 1) = fst (dp_cell rs hs sim d i full k (j - 1))"
    using cells [of k "j - 1"] b by (simp add: prod_eq_iff)
  from tries_cell [OF dm b, of i d rs hs sim full]
  obtain H' bp' where
    t: "try_ins i k j (try_del d k j (try_sub rs hs sim full k j (H, bp))) = (H', bp')"
    and d': "dims (length rs) (length hs) H'" "dims (length rs) (length hs) bp'"
    and f: "\<And>m n. \<not> (m = k \<and> n = j) \<Longrightarrow> mget H' m n = mget H m n \<and> mget bp' m n = mget bp m n"
    and e: "(mget H' k j, mget bp' k j) = dp_cell rs hs sim d i full k j"
    unfolding n0 n1 n2 n3 dp_cell_step [OF b(1,3), symmetric] by blast
  have cells': "(mget H' m n, mget bp' m n) =
             (if m < k \<or> (m = k \<and> n < Suc j) then dp_cell rs hs sim d i full m n
              else init_cell i full (length hs) m n)"
    if "m \<le> length rs" "n \<le> length hs" for m n
  proof (cases "m = k \<and> n = j")
    case True
    then show ?thesis using e by simp
  next
    case False
    then have "(mget H' m n, mget bp' m n) = (mget H m n, mget bp m n)"
      using f by simp
    also have "\<dots> = (if m < k \<or> (m = k \<and> n < j) then dp_cell rs hs sim d i full m n
              else init_cell i full (length hs) m n)"
      by (rule cells [OF that])
    also have "\<dots> = (if m < k \<or> (m = k \<and> n < Suc j) then dp_cell rs hs sim d i full m n
              else init_cell i full (length hs) m n)"
      using False by (auto simp: less_Suc_eq)
    finally show ?thesis .
  qed
  have v: "mget H' k j = fst (dp_cell rs hs sim d i full k j)"
    using e by (simp add: prod_eq_iff)
  define res where "res = (if (\<not> full \<or> j = length hs) \<and> ge_score (mget H' k j) ms
           then (H', bp', Num (mget H' k j), (k, j))
           else (H', bp', ms, me))"
  have r: "cell_step rs hs sim d i full k j st = res"
    by (simp add: cell_step_def st t res_def)
  have mx': "snd (snd res) = best_end rs hs sim d i (if Suc j \<le> length hs then k - 1 else k)"
    if "full \<and> hs \<noteq> []"
  proof (cases "j = length hs")
    case True
    then show ?thesis
      using that mx [OF that] v
      by (simp add: res_def best_end_step [OF b(1), of rs hs sim d i] prod_eq_iff)
  next
    case False
    then have "Suc j \<le> length hs" using b(4) by simp
    then show ?thesis
      using that mx [OF that] False by (simp add: res_def)
  qed
  have "fst res = H'" "fst (snd res) = bp'"
    by (simp_all add: res_def)
  then show ?thesis
    unfolding r fill_inv_def
    using d' cells' mx' by (cases res) (simp del: dp_cell.simps best_end.simps)
qed

lemma fill_row_inv:
  assumes inv: "fill_inv rs hs sim d i full k 1 st"
    and b: "1 \<le> k" "k \<le> length rs"
  shows "fill_inv rs hs sim d i full k (length hs + 1) (fill_row rs hs sim d i full k st)"
  unfolding fill_row_def
  by (rule fold_upt_rule [where P = "fill_inv rs hs sim d i full k", OF inv])
     (auto intro: cell_step_inv b)

lemma fill_inv_next_row:
  assumes "fill_inv rs hs sim d i full k (length hs + 1) st" "1 \<le> k"
  shows "fill_inv rs hs sim d i full (Suc k) 1 st"
proof -
  obtain H bp ms me where st: "st = (H, bp, ms, me)" by (cases st)
  have "(if m < k \<or> (m = k \<and> n < length hs + 1) then dp_cell rs hs sim d i full m n
              else init_cell i full (length hs) m n) =
        (if m < Suc k \<or> (m = Suc k \<and> n < 1) then dp_cell rs hs sim d i full m n
              else init_cell i full (length hs) m n)" if "n \<le> length hs" for m n
    using that by (auto simp: dp_cell_col0 less_Suc_eq)
  moreover have "hs \<noteq> [] \<Longrightarrow> 1 \<le> length hs"
    by (cases hs) simp_all
  ultimately show ?thesis
    using assms unfolding fill_inv_def st
    by (simp del: dp_cell.simps best_end.simps)
qed


lemma fill_matrices_inv:
  assumes init: "init_matrices i full (length rs) (length hs) = (H0, bp0)"
  shows "fill_inv rs hs sim d i full (length rs + 1) 1
           (fill_matrices rs hs sim d i full (H0, bp0, MinusInf, (0, 0)))"
proof -
  from init_matrices_cells [OF init]
  have d0: "dims (length rs) (length hs) H0" "dims (length rs) (length hs) bp0"
    and c0: "\<And>m n. m \<le> length rs \<Longrightarrow> n \<le> length hs \<Longrightarrow>
               (mget H0 m n, mget bp0 m n) = init_cell i full (length hs) m n"
    by auto
  have "hs \<noteq> [] \<Longrightarrow> 1 \<le> length hs"
    by (cases hs) simp_all
  moreover have "(if m < 1 \<or> (m = 1 \<and> n < 1) then dp_cell rs hs sim d i full m n
              else init_cell i full (length hs) m n) = init_cell i full (length hs) m n" for m n
    by (auto simp: dp_cell_col0)
  ultimately have base: "fill_inv rs hs sim d i full 1 1 (H0, bp0, MinusInf, (0, 0))"
    unfolding fill_inv_def using d0 c0 by (simp del: dp_cell.simps)
  have step: "fill_inv rs hs sim d i full (Suc k) 1 (fill_row rs hs sim d i full k st)"
    if "1 \<le> k" "k < length rs + 1" "fill_inv rs hs sim d i full k 1 st" for k st
    using that by (intro fill_inv_next_row fill_row_inv) auto
  show ?thesis
    unfolding fill_matrices_def
    by (rule fold_upt_rule [where P = "\<lambda>k. fill_inv rs hs sim d i full k 1", OF base step])
       auto
qed

lemma fill_matrices_result:
  assumes "init_matrices i full (length rs) (length hs) = (H0, bp0)"
    and "fill_matrices rs hs sim d i full (H0, bp0, MinusInf, (0, 0)) = (H, bp, ms, me)"
  shows "dims (length rs) (length hs) H" "dims (length rs) (length hs) bp"
    and "\<And>m n. m \<le> length rs \<Longrightarrow> n \<le> length hs \<Longrightarrow>
           mget H m n = fst (dp_cell rs hs sim d i full m n) \<and>
           mget bp m n = snd (dp_cell rs hs sim d i full m n)"
    and "full \<Longrightarrow> hs \<noteq> [] \<Longrightarrow> (ms, me) = best_end rs hs sim d i (length rs)"
proof -
  have inv: "fill_inv rs hs sim d i full (length rs + 1) 1 (H, bp, ms, me)"
    using fill_matrices_inv [OF assms(1), of sim d] assms(2) by simp
  show "dims (length rs) (length hs) H" "dims (length rs) (length hs) bp"
    using inv by (simp_all add: fill_inv_def)
  show "mget H m n = fst (dp_cell rs hs sim d i full m n) \<and>
        mget bp m n = snd (dp_cell rs hs sim d i full m n)"
    if "m \<le> length rs" "n \<le> length hs" for m n
  proof -
    have "(mget H m n, mget bp m n) = dp_cell rs hs sim d i full m n"
      using inv that by (simp add: fill_inv_def del: dp_cell.simps)
    then show ?thesis by (simp add: prod_eq_iff)
  qed
  show "(ms, me) = best_end rs hs sim d i (length rs)" if "full" "hs \<noteq> []"
  proof -
    have "1 \<le> length hs" using that(2) by (cases hs) simp_all
    then show ?thesis
      using inv that by (simp add: fill_inv_def del: dp_cell.simps best_end.simps)
  qed
qed

subsection \<open>Properties of the recurrence in full-hypothesis mode\<close>

lemma cell_of_ge_ins: "ins_cand \<le> fst (cell_of full c0 s dl ins_cand m n)"
  by (simp add: cell_of_def Let_def)

lemma cell_of_bp:
  "snd (cell_of full c0 s dl il m n) \<in> {(m - 1, n - 1), (m - 1, n), (m, n - 1)}
   \<or> (cell_of full c0 s dl il m n = c0 \<and> il \<le> fst c0)"
  by (simp add: cell_of_def Let_def)

lemma cell_of_diag_value:
  "1 \<le> m \<Longrightarrow> 1 \<le> n \<Longrightarrow> snd (cell_of full c0 s dl il m n) = (m - 1, n - 1) \<Longrightarrow>
   cell_of full c0 s dl il m n \<noteq> c0 \<Longrightarrow> fst (cell_of full c0 s dl il m n) = s"
  by (auto simp: cell_of_def Let_def split: if_splits)

lemma cell_of_diag:
  "s \<ge> fst c0 \<Longrightarrow> dl \<le> s \<Longrightarrow> il \<le> s \<Longrightarrow>
   cell_of True c0 s dl il m n = (s, (m - 1, n - 1))"
  by (simp add: cell_of_def Let_def)

lemma cell_of_value: "fst (cell_of full c0 s dl il m n) \<in> {fst c0, s, dl, il}"
  by (simp add: cell_of_def Let_def)

lemma dp_cell_lower:
  assumes "- 1 \<le> i"
  shows "- int n \<le> fst (dp_cell rs hs sim d i True m n)"
proof (cases m)
  case 0
  have "int n * (- 1) \<le> int n * i"
    by (rule mult_left_mono) (use assms in auto)
  then show ?thesis using 0 by (simp add: init_cell_def)
next
  case m: (Suc m')
  have "- int n \<le> fst (dp_cell rs hs sim d i True (Suc m') n)"
  proof (induction n)
    case 0
    then show ?case by (simp add: init_cell_def)
  next
    case (Suc n)
    have "fst (dp_cell rs hs sim d i True (Suc m') n) + i
            \<le> fst (dp_cell rs hs sim d i True (Suc m') (Suc n))"
      by (simp add: cell_of_ge_ins)
    then show ?case using Suc.IH assms by linarith
  qed
  then show ?thesis by (simp only: m)
qed

lemma dp_cell_bp_valid:
  assumes "- 1 \<le> i" "1 \<le> m" "1 \<le> n" "n \<le> length hs"
  shows "snd (dp_cell rs hs sim d i True m n) \<in> {(m - 1, n - 1), (m - 1, n), (m, n - 1)} \<and>
         dp_cell rs hs sim d i True m n \<noteq> init_cell i True (length hs) m n"
proof -
  define c0 where "c0 = init_cell i True (length hs) m n"
  define s where "s = fst (dp_cell rs hs sim d i True (m - 1) (n - 1))
                        + sim (rs ! (m - 1)) (hs ! (n - 1))"
  define dl where "dl = fst (dp_cell rs hs sim d i True (m - 1) n) + d"
  define il where "il = fst (dp_cell rs hs sim d i True m (n - 1)) + i"
  have eq: "dp_cell rs hs sim d i True m n = cell_of True c0 s dl il m n"
    unfolding c0_def s_def dl_def il_def by (rule dp_cell_step [OF assms(2,3)])
  have c0: "c0 = (- (int (length hs) + 2), (0, 0))"
    using assms by (simp add: init_cell_def c0_def)
  have "- int (n - 1) \<le> fst (dp_cell rs hs sim d i True m (n - 1))"
    by (rule dp_cell_lower [OF assms(1)])
  then have il: "fst c0 < il"
    using assms unfolding c0 il_def by simp
  have "il \<le> fst (cell_of True c0 s dl il m n)"
    by (rule cell_of_ge_ins)
  with il have ne: "cell_of True c0 s dl il m n \<noteq> c0" by auto
  then show ?thesis
    using cell_of_bp [of True c0 s dl il m n] il
    unfolding eq c0_def [symmetric] by auto
qed

lemma dp_cell_11_nonzero:
  assumes "- 1 \<le> i" "hs \<noteq> []" "sim (rs ! 0) (hs ! 0) \<noteq> 0"
    and "snd (dp_cell rs hs sim d i True 1 1) = (0, 0)"
  shows "fst (dp_cell rs hs sim d i True 1 1) \<noteq> 0"
proof -
  have l: "1 \<le> length hs" using assms(2) by (cases hs) simp_all
  have ne: "dp_cell rs hs sim d i True 1 1 \<noteq> init_cell i True (length hs) 1 1"
    using dp_cell_bp_valid [OF assms(1) _ _ l, of 1] by simp
  have "fst (dp_cell rs hs sim d i True 1 1)
          = fst (dp_cell rs hs sim d i True 0 0) + sim (rs ! 0) (hs ! 0)"
    using cell_of_diag_value [of 1 1 True "init_cell i True (length hs) 1 1"
             "fst (dp_cell rs hs sim d i True 0 0) + sim (rs ! 0) (hs ! 0)"
             "fst (dp_cell rs hs sim d i True 0 1) + d"
             "fst (dp_cell rs hs sim d i True 1 0) + i"]
      assms(4) ne
    by (simp add: dp_cell_step [of 1 1])
  then show ?thesis using assms(3) by (simp add: init_cell_def)
qed

section \<open>The initial score matrix\<close>

text \<open>
  C3, as the code has it: in full-hypothesis mode the initialisation leaves \<open>H[0][0] = 0\<close>,
  \<open>H[m][0] = 0\<close> for every \<open>m > 0\<close> (line 59 writes 0 into the first column of every
  row), \<open>H[m][n] = -(hyp_len + 2)\<close> for \<open>m, n > 0\<close>, and
  \<open>H[0][n] = H[0][n-1] + ins_score\<close> with backpointer \<open>(0, n - 1)\<close> for \<open>n > 0\<close>.
\<close>

theorem init_matrices_full_mode:
  assumes "init_matrices ins_score True ref_len hyp_len = (H, bp)"
  shows "mget H 0 0 = 0 \<and>
         (\<forall>m. 0 < m \<and> m \<le> ref_len \<longrightarrow>
            mget H m 0 = 0 \<and>
            (\<forall>n. 0 < n \<and> n \<le> hyp_len \<longrightarrow> mget H m n = - (int hyp_len + 2))) \<and>
         (\<forall>n. 0 < n \<and> n \<le> hyp_len \<longrightarrow>
            mget H 0 n = mget H 0 (n - 1) + ins_score \<and> mget bp 0 n = (0, n - 1))"
proof -
  from init_matrices_cells [OF assms]
  have c: "\<And>m n. m \<le> ref_len \<Longrightarrow> n \<le> hyp_len \<Longrightarrow>
             (mget H m n, mget bp m n) = init_cell ins_score True hyp_len m n"
    by blast
  have row0: "mget H 0 n = int n * ins_score" "mget bp 0 n = (0, n - 1)" if "n \<le> hyp_len" for n
    using c [of 0 n] that by (simp_all add: init_cell_def)
  have r0: "mget H 0 0 = 0" using row0(1) [of 0] by simp
  have r1: "mget H 0 n = mget H 0 (n - 1) + ins_score" if "0 < n" "n \<le> hyp_len" for n
  proof -
    have "int n = int (n - 1) + 1" using that(1) by simp
    then have "int n * ins_score = int (n - 1) * ins_score + ins_score"
      by (simp only: distrib_right mult_1)
    then show ?thesis using row0(1) [of n] row0(1) [of "n - 1"] that by simp
  qed
  have r2: "mget H m 0 = 0" if "0 < m" "m \<le> ref_len" for m
    using c [of m 0] that by (simp add: init_cell_def)
  have r3: "mget H m n = - (int hyp_len + 2)"
    if "0 < m" "m \<le> ref_len" "0 < n" "n \<le> hyp_len" for m n
    using c [of m n] that by (simp add: init_cell_def)
  show ?thesis
    using r0 r1 r2 r3 row0(2) by blast
qed

theorem init_matrices_full_mode_witness:
  "init_matrices (- 1) True 1 1 = ([[0, - 1], [0, - 3]], [[(0, 0), (0, 0)], [(0, 0), (0, 0)]]) \<and>
   mget [[0, - 1], [0, - 3 :: int]] 1 0 = 0 \<and>
   mget [[0, - 1], [0, - 3 :: int]] 1 1 = - (int 1 + 2) \<and>
   mget [[0, - 1], [0, - 3 :: int]] 0 1 = mget [[0, - 1], [0, - 3 :: int]] 0 0 + (- 1)"
proof -
  have h: "init_matrices (- 1) True 1 1
             = ([[0, - 1], [0, - 3]], [[(0, 0), (0, 0)], [(0, 0), (0, 0)]])"
    by code_simp
  from init_matrices_full_mode [OF h] h show ?thesis
    by (simp add: mget_def)
qed

text \<open>
  C3 as stated fails: with one reference token and one hypothesis token \<open>H[1][0]\<close> is 0,
  not \<open>-(1 + 2)\<close>.
\<close>

theorem init_matrices_first_column_counterexample:
  "mget (fst (init_matrices (- 1) True 1 1)) 1 0 = 0 \<and>
   mget (fst (init_matrices (- 1) True 1 1)) 1 0 \<noteq> - (int 1 + 2)"
  by code_simp

section \<open>The traceback in full-hypothesis mode\<close>

lemma traceback_full_base:
  "0 < n \<Longrightarrow> mget bp m n = (0, 0) \<Longrightarrow> mget H m n \<noteq> 0 \<Longrightarrow>
   traceback rs hs eps True H bp m n sc out =
     Inr (out @ [(word_at rs m eps, word_at hs n eps, 0, 0, m, n)], Num (mget H 0 0))"
  by (simp add: traceback.simps)

lemma traceback_full_diag:
  "mget bp (Suc m) (Suc n) = (m, n) \<Longrightarrow> (m, n) \<noteq> (0, 0) \<Longrightarrow>
   traceback rs hs eps True H bp (Suc m) (Suc n) sc out =
     traceback rs hs eps True H bp m n (Num (mget H m n))
       (out @ [(word_at rs (Suc m) eps, word_at hs (Suc n) eps, m, n, Suc m, Suc n)])"
  by (subst traceback.simps) auto

lemma traceback_full_del:
  "0 < n \<Longrightarrow> mget bp (Suc m) n = (m, n) \<Longrightarrow>
   traceback rs hs eps True H bp (Suc m) n sc out =
     traceback rs hs eps True H bp m n (Num (mget H m n))
       (out @ [(word_at rs (Suc m) eps, eps, m, n, Suc m, n)])"
  by (subst traceback.simps) simp

lemma traceback_full_ins:
  "mget bp m (Suc n) = (m, n) \<Longrightarrow> (m, n) \<noteq> (0, 0) \<Longrightarrow>
   traceback rs hs eps True H bp m (Suc n) sc out =
     traceback rs hs eps True H bp m n (Num (mget H m n))
       (out @ [(eps, word_at hs (Suc n) eps, m, n, m, Suc n)])"
  by (subst traceback.simps) auto

lemma traceback_full_chain:
  assumes row0: "\<And>n. 1 \<le> n \<Longrightarrow> n \<le> L \<Longrightarrow> mget bp 0 n = (0, n - 1)"
    and inner: "\<And>m n. 1 \<le> m \<Longrightarrow> m \<le> R \<Longrightarrow> 1 \<le> n \<Longrightarrow> n \<le> L \<Longrightarrow>
                  mget bp m n \<in> {(m - 1, n - 1), (m - 1, n), (m, n - 1)}"
    and h01: "mget H 0 1 \<noteq> 0"
    and h11: "mget bp 1 1 = (0, 0) \<Longrightarrow> mget H 1 1 \<noteq> 0"
    and "m \<le> R" "n \<le> L"
  shows "\<exists>recs sc'. traceback rs hs eps True H bp m n sc out = Inr (out @ recs, sc')
                     \<and> chain m n recs"
  using assms(5,6)
proof (induction "m + n" arbitrary: m n sc out rule: less_induct)
  case less
  have cont: "\<exists>recs sc'. traceback rs hs eps True H bp m n sc out = Inr (out @ recs, sc')
                     \<and> chain m n recs"
    if eq: "traceback rs hs eps True H bp m n sc out =
              traceback rs hs eps True H bp pm pn sc1 (out @ [(r, h, pm, pn, m, n)])"
      and st: "(m = pm + 1 \<and> n = pn + 1) \<or> (m = pm + 1 \<and> n = pn) \<or> (m = pm \<and> n = pn + 1)"
      and pos: "0 < n"
    for pm pn sc1 r h
  proof -
    have "pm + pn < m + n" "pm \<le> R" "pn \<le> L"
      using st less.prems by auto
    from less.hyps [OF this, of sc1 "out @ [(r, h, pm, pn, m, n)]"]
    obtain recs sc' where
      "traceback rs hs eps True H bp pm pn sc1 (out @ [(r, h, pm, pn, m, n)])
         = Inr ((out @ [(r, h, pm, pn, m, n)]) @ recs, sc')" "chain pm pn recs"
      by blast
    then have "traceback rs hs eps True H bp m n sc out
                 = Inr (out @ ((r, h, pm, pn, m, n) # recs), sc')
               \<and> chain m n ((r, h, pm, pn, m, n) # recs)"
      using eq st pos by simp
    then show ?thesis by blast
  qed
  have stop: "\<exists>recs sc'. traceback rs hs eps True H bp m n sc out = Inr (out @ recs, sc')
                     \<and> chain m n recs"
    if "mget bp m n = (0, 0)" "mget H m n \<noteq> 0" "(m = 1 \<and> n = 1) \<or> (m = 0 \<and> n = 1)"
  proof -
    have "traceback rs hs eps True H bp m n sc out =
            Inr (out @ [(word_at rs m eps, word_at hs n eps, 0, 0, m, n)], Num (mget H 0 0))"
      using that by (intro traceback_full_base) auto
    moreover have "chain m n [(word_at rs m eps, word_at hs n eps, 0, 0, m, n)]"
      using that(3) by auto
    ultimately show ?thesis by blast
  qed
  show ?case
  proof (cases n)
    case 0
    then show ?thesis by (simp add: traceback_origin_full)
  next
    case n: (Suc n')
    show ?thesis
    proof (cases m)
      case m: 0
      have b: "mget bp 0 (Suc n') = (0, n')"
        using row0 [of "Suc n'"] less.prems n by simp
      show ?thesis
      proof (cases "n' = 0")
        case True
        then show ?thesis using stop b h01 m n by simp
      next
        case False
        then show ?thesis
          using cont [OF _ _ _] traceback_full_ins [OF b, of rs hs eps H sc out] m n
          by simp
      qed
    next
      case m: (Suc m')
      have "mget bp (Suc m') (Suc n') \<in> {(m', n'), (m', Suc n'), (Suc m', n')}"
        using inner [of "Suc m'" "Suc n'"] less.prems m n by simp
      then consider
        (diag) "mget bp (Suc m') (Suc n') = (m', n')" |
        (del) "mget bp (Suc m') (Suc n') = (m', Suc n')" |
        (ins) "mget bp (Suc m') (Suc n') = (Suc m', n')"
        by blast
      then show ?thesis
      proof cases
        case diag
        show ?thesis
        proof (cases "(m', n') = (0, 0)")
          case True
          then show ?thesis using stop diag h11 m n by simp
        next
          case False
          then show ?thesis
            using cont [OF _ _ _] traceback_full_diag [OF diag, of rs hs eps H sc out] m n
            by simp
        qed
      next
        case del
        then show ?thesis
          using cont [OF _ _ _] traceback_full_del [OF _ del, of rs hs eps H sc out] m n
          by simp
      next
        case ins
        then show ?thesis
          using cont [OF _ _ _] traceback_full_ins [OF ins, of rs hs eps H sc out] m n
          by simp
      qed
    qed
  qed
qed



subsection \<open>What a chain of single steps covers\<close>

lemma chain_spans: "chain m n recs \<Longrightarrow> concat (map hyp_span (rev recs)) = [0..<n]"
proof (induction recs arbitrary: m n)
  case Nil
  then show ?case by simp
next
  case (Cons p recs)
  obtain r h pm pn m' n' where p: "p = (r, h, pm, pn, m', n')"
    by (cases p)
  from Cons.prems have c: "chain pm pn recs" and n: "n' = n" "n = pn + 1 \<or> n = pn"
    by (auto simp: p)
  have "concat (map hyp_span (rev recs)) = [0..<pn]"
    by (rule Cons.IH [OF c])
  moreover have "hyp_span p = [pn..<n]"
    by (simp add: p hyp_span_def hyp_from_def hyp_to_def n)
  ultimately show ?case using n(2) by auto
qed

lemma chain_single_step:
  "chain m n recs \<Longrightarrow> p \<in> set recs \<Longrightarrow> hyp_to p \<le> hyp_from p + 1"
proof (induction recs arbitrary: m n)
  case Nil
  then show ?case by simp
next
  case (Cons q recs)
  obtain r h pm pn m' n' where q: "q = (r, h, pm, pn, m', n')"
    by (cases q)
  from Cons.prems(1) have c: "chain pm pn recs" and n: "n' = n" "n = pn + 1 \<or> n = pn"
    by (auto simp: q)
  show ?case
  proof (cases "p = q")
    case True
    then show ?thesis using n by (auto simp: q hyp_from_def hyp_to_def)
  next
    case False
    then show ?thesis using Cons.IH [OF c] Cons.prems(2) by simp
  qed
qed

lemma chain_ref_bound: "chain m n recs \<Longrightarrow> p \<in> set recs \<Longrightarrow> ref_from p \<le> m"
proof (induction recs arbitrary: m n)
  case Nil
  then show ?case by simp
next
  case (Cons q recs)
  obtain r h pm pn m' n' where q: "q = (r, h, pm, pn, m', n')"
    by (cases q)
  from Cons.prems(1) have c: "chain pm pn recs" and m: "pm \<le> m"
    by (auto simp: q)
  show ?case
  proof (cases "p = q")
    case True
    then show ?thesis using m by (simp add: q ref_from_def)
  next
    case False
    then have "ref_from p \<le> pm" using Cons.IH [OF c] Cons.prems(2) by simp
    then show ?thesis using m by simp
  qed
qed

lemma chain_sorted: "chain m n recs \<Longrightarrow> sorted (map ref_from (rev recs))"
proof (induction recs arbitrary: m n)
  case Nil
  then show ?case by simp
next
  case (Cons q recs)
  obtain r h pm pn m' n' where q: "q = (r, h, pm, pn, m', n')"
    by (cases q)
  from Cons.prems(1) have c: "chain pm pn recs"
    by (auto simp: q)
  have "ref_from p \<le> ref_from q" if "p \<in> set recs" for p
    using chain_ref_bound [OF c that] by (simp add: q ref_from_def)
  then show ?case
    using Cons.IH [OF c] by (auto simp: sorted_append)
qed

lemma chain_nonempty: "chain m n recs \<Longrightarrow> 0 < n \<Longrightarrow> recs \<noteq> []"
  by (cases recs) auto

lemma chain_ref_range:
  "chain m n recs \<Longrightarrow> recs \<noteq> [] \<Longrightarrow>
   ref_from ` set recs = {ref_from (last recs)..ref_from (hd recs)} \<and>
   ref_from (last recs) \<le> ref_from (hd recs) \<and>
   ref_from (hd recs) \<le> m \<and> m \<le> ref_from (hd recs) + 1"
proof (induction recs arbitrary: m n)
  case Nil
  then show ?case by simp
next
  case (Cons q recs)
  obtain r h pm pn m' n' where q: "q = (r, h, pm, pn, m', n')"
    by (cases q)
  from Cons.prems(1) have c: "chain pm pn recs" and m: "pm \<le> m" "m \<le> pm + 1"
    by (auto simp: q)
  have rq: "ref_from q = pm" by (simp add: q ref_from_def)
  show ?case
  proof (cases "recs = []")
    case True
    then show ?thesis using m rq by simp
  next
    case False
    from Cons.IH [OF c False]
    have ih: "ref_from ` set recs = {ref_from (last recs)..ref_from (hd recs)}"
      "ref_from (last recs) \<le> ref_from (hd recs)"
      "ref_from (hd recs) \<le> pm" "pm \<le> ref_from (hd recs) + 1"
      by auto
    have "insert pm {ref_from (last recs)..ref_from (hd recs)} = {ref_from (last recs)..pm}"
      using ih(2,3,4) by auto
    then show ?thesis
      using False m rq ih by simp
  qed
qed

subsection \<open>The aligner returns a chain\<close>

lemma best_end_cell:
  "1 \<le> k \<Longrightarrow>
   \<exists>m. 1 \<le> m \<and> m \<le> k \<and>
       best_end rs hs sim d i k = (Num (fst (dp_cell rs hs sim d i True m (length hs))),
                                   (m, length hs))"
proof (induction k rule: dec_induct)
  case base
  show ?case by (intro exI [of _ 1]) simp
next
  case (step k)
  then obtain m where m: "1 \<le> m" "m \<le> k"
    "best_end rs hs sim d i k = (Num (fst (dp_cell rs hs sim d i True m (length hs))),
                                   (m, length hs))"
    by blast
  show ?case
  proof (cases "ge_score (fst (dp_cell rs hs sim d i True (Suc k) (length hs)))
                  (fst (best_end rs hs sim d i k))")
    case True
    then show ?thesis by (intro exI [of _ "Suc k"]) (simp del: dp_cell.simps)
  next
    case False
    then show ?thesis using m by (intro exI [of _ m]) (simp del: dp_cell.simps)
  qed
qed

lemma swa_full_chain:
  assumes ne: "rs \<noteq> []" "hs \<noteq> []"
    and sc: "- 1 \<le> i" "i \<noteq> 0" "sim (rs ! 0) (hs ! 0) \<noteq> 0"
  shows "\<exists>recs m.
           smith_waterman_alignment rs hs sim d i eps True
             = Inr (rev recs, Num (fst (dp_cell rs hs sim d i True m (length hs)))) \<and>
           chain m (length hs) recs \<and> 1 \<le> m \<and> m \<le> length rs \<and>
           best_end rs hs sim d i (length rs)
             = (Num (fst (dp_cell rs hs sim d i True m (length hs))), (m, length hs))"
proof -
  have len: "1 \<le> length rs" "1 \<le> length hs"
    using ne by (simp_all add: Suc_le_eq)
  obtain H0 bp0 where init: "init_matrices i True (length rs) (length hs) = (H0, bp0)"
    by (cases "init_matrices i True (length rs) (length hs)")
  obtain H bp ms me where
    fill: "fill_matrices rs hs sim d i True (H0, bp0, MinusInf, (0, 0)) = (H, bp, ms, me)"
    by (cases "fill_matrices rs hs sim d i True (H0, bp0, MinusInf, (0, 0))")
  note res = fill_matrices_result [OF init fill]
  have cellH: "mget H m n = fst (dp_cell rs hs sim d i True m n)"
    and cellB: "mget bp m n = snd (dp_cell rs hs sim d i True m n)"
    if "m \<le> length rs" "n \<le> length hs" for m n
    using res(3) [OF that] by simp_all
  from best_end_cell [OF len(1), of rs hs sim d i]
  obtain m where m: "1 \<le> m" "m \<le> length rs"
    and best: "best_end rs hs sim d i (length rs)
             = (Num (fst (dp_cell rs hs sim d i True m (length hs))), (m, length hs))"
    by blast
  have mx: "ms = Num (fst (dp_cell rs hs sim d i True m (length hs)))" "me = (m, length hs)"
    using res(4) [OF _ ne(2)] best by simp_all
  have row0: "mget bp 0 n = (0, n - 1)" if "1 \<le> n" "n \<le> length hs" for n
    using cellB [of 0 n] that by (simp add: init_cell_def)
  have inner: "mget bp m n \<in> {(m - 1, n - 1), (m - 1, n), (m, n - 1)}"
    if "1 \<le> m" "m \<le> length rs" "1 \<le> n" "n \<le> length hs" for m n
    using dp_cell_bp_valid [OF sc(1) that(1,3,4), of rs sim d] cellB [OF that(2,4)]
    by simp
  have h01: "mget H 0 1 \<noteq> 0"
    using cellH [of 0 1] len sc(2) by (simp add: init_cell_def)
  have h11: "mget H 1 1 \<noteq> 0" if "mget bp 1 1 = (0, 0)"
  proof -
    have "snd (dp_cell rs hs sim d i True 1 1) = (0, 0)"
      using that cellB [OF len] by (simp only:)
    from dp_cell_11_nonzero [where sim = sim, OF sc(1) ne(2) sc(3) this]
    show ?thesis unfolding cellH [OF len] .
  qed
  from traceback_full_chain [of "length hs" bp "length rs" H m "length hs" rs hs eps ms "[]",
                             OF row0 inner h01 h11 m(2)]
  obtain recs sc' where
    tb: "traceback rs hs eps True H bp m (length hs) ms [] = Inr (recs, sc')"
    and ch: "chain m (length hs) recs"
    by auto
  have "smith_waterman_alignment rs hs sim d i eps True = Inr (rev recs, ms)"
    by (simp add: smith_waterman_alignment_def init fill mx(2) tb)
  then show ?thesis
    using ch m best mx(1) by blast
qed



text \<open>
  C1, for the scorings that never leave a zero score in a cell where the traceback stops:
  an insertion score that is at least \<open>-1\<close> and not 0, and a non-zero similarity of the
  two first tokens (the fixed scoring of this file is one of them). For a non-empty
  reference and a non-empty hypothesis the full-hypothesis aligner then returns a list
  of records whose hypothesis spans, read in output order, are the hypothesis indices
  \<open>0, \<dots>, len(hyp) - 1\<close>, each once; every record spans at most one hypothesis index;
  and the reference from-indices are non-decreasing.
\<close>

theorem swa_full_covers_hypothesis:
  assumes "ref_tok \<noteq> []" "hyp_tok \<noteq> []"
    and "- 1 \<le> ins_score" "ins_score \<noteq> 0" "sim (ref_tok ! 0) (hyp_tok ! 0) \<noteq> 0"
  shows "\<exists>output score.
           smith_waterman_alignment ref_tok hyp_tok sim del_score ins_score eps True
             = Inr (output, score) \<and>
           concat (map hyp_span output) = [0..<length hyp_tok] \<and>
           (\<forall>p \<in> set output. hyp_to p \<le> hyp_from p + 1) \<and>
           sorted (map ref_from output)"
proof -
  from swa_full_chain [where sim = sim, OF assms, of del_score eps]
  obtain recs m where
    r: "smith_waterman_alignment ref_tok hyp_tok sim del_score ins_score eps True
          = Inr (rev recs,
                 Num (fst (dp_cell ref_tok hyp_tok sim del_score ins_score True m
                            (length hyp_tok))))"
    and ch: "chain m (length hyp_tok) recs"
    by blast
  have "concat (map hyp_span (rev recs)) = [0..<length hyp_tok]"
    by (rule chain_spans [OF ch])
  moreover have "\<forall>p \<in> set (rev recs). hyp_to p \<le> hyp_from p + 1"
    using chain_single_step [OF ch] by simp
  moreover have "sorted (map ref_from (rev recs))"
    by (rule chain_sorted [OF ch])
  ultimately show ?thesis
    using r by blast
qed

theorem swa_full_covers_hypothesis_witness:
  "smith_waterman_alignment [''a'', ''b'', ''c''] [''a'', ''x'', ''c''] sim_fixed (- 1) (- 1)
       ''|'' True
     = Inr ([(''a'', ''a'', 0, 0, 1, 1), (''b'', ''x'', 1, 1, 2, 2), (''c'', ''c'', 2, 2, 3, 3)],
            Num 3) \<and>
   concat (map hyp_span [(''a'', ''a'', 0, 0, 1, 1), (''b'', ''x'', 1, 1, 2, 2),
                         (''c'', ''c'', 2, 2, 3, 3)]) = [0..<length [''a'', ''x'', ''c'']] \<and>
   sorted (map ref_from [(''a'', ''a'', 0, 0, 1, 1), (''b'', ''x'', 1, 1, 2, 2),
                         (''c'', ''c'', 2, 2, 3, 3)])"
proof -
  have e: "smith_waterman_alignment [''a'', ''b'', ''c''] [''a'', ''x'', ''c''] sim_fixed
             (- 1) (- 1) ''|'' True
     = Inr ([(''a'', ''a'', 0, 0, 1, 1), (''b'', ''x'', 1, 1, 2, 2), (''c'', ''c'', 2, 2, 3, 3)],
            Num 3)"
    by code_simp
  have h: "[''a'', ''b'', ''c''] \<noteq> []" "[''a'', ''x'', ''c''] \<noteq> []" "- 1 \<le> (- 1 :: int)"
    "(- 1 :: int) \<noteq> 0" "sim_fixed ([''a'', ''b'', ''c''] ! 0) ([''a'', ''x'', ''c''] ! 0) \<noteq> 0"
    by (simp_all add: sim_fixed_def)
  from swa_full_covers_hypothesis [where sim = sim_fixed, OF h, of "- 1" "''|''"]
  obtain outp score where
    o: "smith_waterman_alignment [''a'', ''b'', ''c''] [''a'', ''x'', ''c''] sim_fixed
          (- 1) (- 1) ''|'' True = Inr (outp, score)"
       "concat (map hyp_span outp) = [0..<length [''a'', ''x'', ''c'']]"
       "sorted (map ref_from outp)"
    by blast
  from o(1) have "outp = [(''a'', ''a'', 0, 0, 1, 1), (''b'', ''x'', 1, 1, 2, 2),
                           (''c'', ''c'', 2, 2, 3, 3)]"
    unfolding e by simp
  with o(2,3) e show ?thesis by simp
qed

text \<open>
  C1 as stated, for every scoring, fails: with a similarity that scores a mismatch 0,
  \<open>ref = ["a"]\<close> and \<open>hyp = ["b"]\<close>, the traceback stops at a cell of score 0 and emits
  nothing, so hypothesis index 0 is not covered.
\<close>

theorem swa_full_zero_similarity_counterexample:
  "smith_waterman_alignment [''a''] [''b''] sim_01 (- 1) (- 1) ''|'' True = Inr ([], Num 0) \<and>
   concat (map hyp_span ([] :: string aligned list)) \<noteq> [0..<length [''b'']]"
proof -
  have "smith_waterman_alignment [''a''] [''b''] sim_01 (- 1) (- 1) ''|'' True
          = Inr ([], Num 0)"
    by code_simp
  then show ?thesis by simp
qed

section \<open>The sentinel never fills both slots\<close>

lemma word_at_real:
  "0 < k \<Longrightarrow> k \<le> length xs \<Longrightarrow> eps \<notin> set xs \<Longrightarrow> word_at xs k eps \<noteq> eps"
proof -
  assume a: "0 < k" "k \<le> length xs" "eps \<notin> set xs"
  then have "xs ! (k - 1) \<in> set xs" by (intro nth_mem) arith
  then show ?thesis using a by (auto simp: word_at_def)
qed

lemma traceback_exit:
  "\<not> ((\<not> full \<and> score_nonneg sc) \<or> (full \<and> 0 < n)) \<Longrightarrow>
   traceback rs hs eps full H bp m n sc out = Inr (out, sc)"
  by (subst traceback.simps) (simp only: if_False)

lemma traceback_stop:
  "(\<not> full \<and> score_nonneg sc) \<or> (full \<and> 0 < n) \<Longrightarrow> mget bp m n = (pm, pn) \<Longrightarrow>
   (pm, pn) = (m, n) \<or> (pm, pn) = (0, 0) \<Longrightarrow>
   traceback rs hs eps full H bp m n sc out =
     (if mget H m n \<noteq> 0
      then Inr (out @ [(word_at rs m eps, word_at hs n eps, pm, pn, m, n)],
                Num (mget H pm pn))
      else Inr (out, Num (mget H m n)))"
  by (subst traceback.simps) (simp only: prod.case if_True)

lemma traceback_diag:
  "(\<not> full \<and> score_nonneg sc) \<or> (full \<and> 0 < n) \<Longrightarrow> mget bp m n = (pm, pn) \<Longrightarrow>
   \<not> ((pm, pn) = (m, n) \<or> (pm, pn) = (0, 0)) \<Longrightarrow> m = pm + 1 \<and> n = pn + 1 \<Longrightarrow>
   traceback rs hs eps full H bp m n sc out =
     traceback rs hs eps full H bp pm pn (Num (mget H pm pn))
       (out @ [(word_at rs m eps, word_at hs n eps, pm, pn, m, n)])"
  by (subst traceback.simps) (simp only: prod.case if_True if_False simp_thms)

lemma traceback_del:
  "(\<not> full \<and> score_nonneg sc) \<or> (full \<and> 0 < n) \<Longrightarrow> mget bp m n = (pm, pn) \<Longrightarrow>
   \<not> ((pm, pn) = (m, n) \<or> (pm, pn) = (0, 0)) \<Longrightarrow> \<not> (m = pm + 1 \<and> n = pn + 1) \<Longrightarrow>
   pn = n \<Longrightarrow>
   traceback rs hs eps full H bp m n sc out =
     (if int pm = int m - 1
      then traceback rs hs eps full H bp pm pn (Num (mget H pm pn))
             (out @ [(word_at rs m eps, eps, pm, pn, m, n)])
      else Inl (unexpected_entry rs hs pm pn))"
  by (subst traceback.simps) (simp only: prod.case if_True if_False simp_thms)

lemma traceback_ins:
  "(\<not> full \<and> score_nonneg sc) \<or> (full \<and> 0 < n) \<Longrightarrow> mget bp m n = (pm, pn) \<Longrightarrow>
   \<not> ((pm, pn) = (m, n) \<or> (pm, pn) = (0, 0)) \<Longrightarrow> \<not> (m = pm + 1 \<and> n = pn + 1) \<Longrightarrow>
   pn \<noteq> n \<Longrightarrow> pm = m \<Longrightarrow>
   traceback rs hs eps full H bp m n sc out =
     (if int pn = int n - 1
      then traceback rs hs eps full H bp pm pn (Num (mget H pm pn))
             (out @ [(eps, word_at hs n eps, pm, pn, m, n)])
      else Inl (unexpected_entry rs hs pm pn))"
  by (subst traceback.simps) (simp only: prod.case if_True if_False simp_thms)

lemma traceback_bad:
  "(\<not> full \<and> score_nonneg sc) \<or> (full \<and> 0 < n) \<Longrightarrow> mget bp m n = (pm, pn) \<Longrightarrow>
   \<not> ((pm, pn) = (m, n) \<or> (pm, pn) = (0, 0)) \<Longrightarrow> \<not> (m = pm + 1 \<and> n = pn + 1) \<Longrightarrow>
   pn \<noteq> n \<Longrightarrow> pm \<noteq> m \<Longrightarrow>
   traceback rs hs eps full H bp m n sc out = Inl (unexpected_entry rs hs pm pn)"
  by (subst traceback.simps) (simp only: prod.case if_True if_False simp_thms)


lemma traceback_no_both_eps:
  assumes e: "eps \<notin> set rs" "eps \<notin> set hs" and h00: "mget H 0 0 = 0"
  shows "m \<le> length rs \<Longrightarrow> n \<le> length hs \<Longrightarrow> \<forall>p \<in> set out. \<not> both_eps eps p \<Longrightarrow>
         traceback rs hs eps full H bp m n sc out = Inr (out', sc') \<Longrightarrow>
         \<forall>p \<in> set out'. \<not> both_eps eps p"
proof (induction "m + n" arbitrary: m n sc out rule: less_induct)
  case less
  obtain pm pn where bp: "mget bp m n = (pm, pn)"
    by (cases "mget bp m n")
  have rw: "word_at rs m eps \<noteq> eps" if "0 < m"
    by (rule word_at_real [OF that less.prems(1) e(1)])
  have hw: "word_at hs n eps \<noteq> eps" if "0 < n"
    by (rule word_at_real [OF that less.prems(2) e(2)])
  have step: "\<forall>p \<in> set out'. \<not> both_eps eps p"
    if "traceback rs hs eps full H bp pm pn sc1 (out @ [(r, h, pm, pn, m, n)]) = Inr (out', sc')"
      "\<not> (r = eps \<and> h = eps)" "pm + pn < m + n" "pm \<le> m" "pn \<le> n"
    for sc1 r h
  proof -
    have "\<forall>p \<in> set (out @ [(r, h, pm, pn, m, n)]). \<not> both_eps eps p"
      using less.prems(3) that(2) by (simp add: both_eps_def)
    moreover have "pm \<le> length rs" "pn \<le> length hs"
      using that(4,5) less.prems(1,2) by simp_all
    ultimately show ?thesis
      using less.hyps [OF that(3) _ _ _ that(1)] by blast
  qed
  note tb = less.prems(4)
  show ?case
  proof (cases "(\<not> full \<and> score_nonneg sc) \<or> (full \<and> 0 < n)")
    case False
    then have "out' = out"
      using tb by (simp add: traceback_exit)
    then show ?thesis using less.prems(3) by simp
  next
    case go: True
    show ?thesis
    proof (cases "(pm, pn) = (m, n) \<or> (pm, pn) = (0, 0)")
      case stop: True
      note u = traceback_stop [OF go bp stop, of rs hs eps H out]
      show ?thesis
      proof (cases "mget H m n = 0")
        case True
        then have "out' = out"
          using tb unfolding u by simp
        then show ?thesis using less.prems(3) by simp
      next
        case False
        then have o: "out' = out @ [(word_at rs m eps, word_at hs n eps, pm, pn, m, n)]"
          using tb unfolding u by simp
        have "0 < m \<or> 0 < n"
        proof (rule ccontr)
          assume "\<not> (0 < m \<or> 0 < n)"
          then have "m = 0" "n = 0" by simp_all
          with False h00 show False by simp
        qed
        then have "\<not> (word_at rs m eps = eps \<and> word_at hs n eps = eps)"
          using rw hw by blast
        then show ?thesis using less.prems(3) by (simp add: o both_eps_def)
      qed
    next
      case cont: False
      show ?thesis
      proof (cases "m = pm + 1 \<and> n = pn + 1")
        case True
        have "traceback rs hs eps full H bp pm pn (Num (mget H pm pn))
                     (out @ [(word_at rs m eps, word_at hs n eps, pm, pn, m, n)])
                   = Inr (out', sc')"
          using tb unfolding traceback_diag [OF go bp cont True] .
        moreover have "\<not> (word_at rs m eps = eps \<and> word_at hs n eps = eps)"
          using True rw by simp
        ultimately show ?thesis
          by (rule step) (use True in simp_all)
      next
        case nd: False
        show ?thesis
        proof (cases "pn = n")
          case True
          note u = traceback_del [OF go bp cont nd True, of rs hs eps H out]
          have a: "int pm = int m - 1"
            using tb unfolding u by (simp split: if_splits)
          then have "traceback rs hs eps full H bp pm pn (Num (mget H pm pn))
                       (out @ [(word_at rs m eps, eps, pm, pn, m, n)]) = Inr (out', sc')"
            using tb unfolding u by simp
          moreover have "\<not> (word_at rs m eps = eps \<and> eps = eps)"
            using a rw by simp
          ultimately show ?thesis
            by (rule step) (use True a in simp_all)
        next
          case ndl: False
          show ?thesis
          proof (cases "pm = m")
            case True
            note u = traceback_ins [OF go bp cont nd ndl True, of rs hs eps H out]
            have a: "int pn = int n - 1"
              using tb unfolding u by (simp split: if_splits)
            then have "traceback rs hs eps full H bp pm pn (Num (mget H pm pn))
                         (out @ [(eps, word_at hs n eps, pm, pn, m, n)]) = Inr (out', sc')"
              using tb unfolding u by simp
            moreover have "\<not> (eps = eps \<and> word_at hs n eps = eps)"
              using a hw by simp
            ultimately show ?thesis
              by (rule step) (use True a in simp_all)
          next
            case False
            then show ?thesis
              using tb unfolding traceback_bad [OF go bp cont nd ndl False] by simp
          qed
        qed
      qed
    qed
  qed
qed


lemma cell_step_elem:
  assumes "case st of (H, bp, ms, (m, n)) \<Rightarrow> m \<le> R \<and> n \<le> L" "k \<le> R" "j \<le> L"
  shows "case cell_step rs hs sim d i full k j st of (H, bp, ms, (m, n)) \<Rightarrow> m \<le> R \<and> n \<le> L"
proof -
  obtain H bp ms m n where st: "st = (H, bp, ms, (m, n))"
    by (cases st) auto
  obtain H' bp' where
    t: "try_ins i k j (try_del d k j (try_sub rs hs sim full k j (H, bp))) = (H', bp')"
    by (cases "try_ins i k j (try_del d k j (try_sub rs hs sim full k j (H, bp)))")
  show ?thesis
    using assms by (simp add: st cell_step_def t)
qed

lemma fill_matrices_elem_bound:
  assumes "fill_matrices rs hs sim d i full (H0, bp0, MinusInf, (0, 0)) = (H, bp, ms, (m, n))"
  shows "m \<le> length rs \<and> n \<le> length hs"
proof -
  define P where "P st \<longleftrightarrow> (case st of (H, bp, ms, (m, n)) \<Rightarrow> m \<le> length rs \<and> n \<le> length hs)"
    for st :: dp_state
  have row: "P (fill_row rs hs sim d i full k st)" if "P st" "k \<le> length rs" for k st
    unfolding fill_row_def
  proof (rule fold_upt_rule [where P = "\<lambda>j. P"])
    show "P st" by (rule that(1))
    show "P (cell_step rs hs sim d i full k j s)" if "1 \<le> j" "j < length hs + 1" "P s" for j s
      using cell_step_elem [where st = s and R = "length rs" and L = "length hs" and k = k and j = j
                            and rs = rs and hs = hs and sim = sim and d = d and i = i
                            and full = full] that
        \<open>k \<le> length rs\<close>
      unfolding P_def by simp
  qed simp
  have "P (fill_matrices rs hs sim d i full (H0, bp0, MinusInf, (0, 0)))"
    unfolding fill_matrices_def
  proof (rule fold_upt_rule [where P = "\<lambda>k. P"])
    show "P (H0, bp0, MinusInf, (0, 0))" by (simp add: P_def)
    show "P (fill_row rs hs sim d i full k s)" if "1 \<le> k" "k < length rs + 1" "P s" for k s
      using row [OF that(3)] that(2) by simp
  qed simp
  then show ?thesis using assms by (simp add: P_def)
qed

text \<open>
  C8: whenever the aligner returns, in either mode and for every scoring, no record has
  the sentinel in both token slots, provided the sentinel is not one of the tokens.
\<close>

theorem swa_never_both_eps:
  assumes "eps \<notin> set ref_tok" "eps \<notin> set hyp_tok"
    and "smith_waterman_alignment ref_tok hyp_tok sim del_score ins_score eps full
           = Inr (records, score)"
  shows "\<forall>p \<in> set records. \<not> both_eps eps p"
proof -
  obtain H0 bp0 where
    init: "init_matrices ins_score full (length ref_tok) (length hyp_tok) = (H0, bp0)"
    by (cases "init_matrices ins_score full (length ref_tok) (length hyp_tok)")
  obtain H bp ms m n where
    fill: "fill_matrices ref_tok hyp_tok sim del_score ins_score full (H0, bp0, MinusInf, (0, 0))
             = (H, bp, ms, (m, n))"
    by (cases "fill_matrices ref_tok hyp_tok sim del_score ins_score full
                 (H0, bp0, MinusInf, (0, 0))") auto
  have b: "m \<le> length ref_tok" "n \<le> length hyp_tok"
    using fill_matrices_elem_bound [OF fill] by simp_all
  have h00: "mget H 0 0 = 0"
    using fill_matrices_result(3) [OF init fill, of 0 0] by (simp add: init_cell_def)
  obtain out sc where
    tb: "traceback ref_tok hyp_tok eps full H bp m n ms [] = Inr (out, sc)"
    and r: "records = rev out"
    using assms(3)
    by (auto simp: smith_waterman_alignment_def init fill split: sum.splits if_splits)
  have "\<forall>p \<in> set out. \<not> both_eps eps p"
    by (rule traceback_no_both_eps [OF assms(1,2) h00 b _ tb]) simp
  then show ?thesis by (simp add: r)
qed

theorem swa_never_both_eps_witness:
  "''|'' \<notin> set [''a''] \<and> ''|'' \<notin> set [''a'', ''b''] \<and>
   smith_waterman_alignment [''a''] [''a'', ''b''] sim_fixed (- 1) (- 1) ''|'' True
     = Inr ([(''a'', ''a'', 0, 0, 1, 1), (''|'', ''b'', 1, 1, 1, 2)], Num 1) \<and>
   \<not> both_eps ''|'' (''a'', ''a'', 0, 0, 1, 1) \<and>
   \<not> both_eps ''|'' (''|'', ''b'', 1, 1, 1, 2)"
proof -
  have e: "smith_waterman_alignment [''a''] [''a'', ''b''] sim_fixed (- 1) (- 1) ''|'' True
     = Inr ([(''a'', ''a'', 0, 0, 1, 1), (''|'', ''b'', 1, 1, 1, 2)], Num 1)"
    by code_simp
  have n: "''|'' \<notin> set [''a'']" "''|'' \<notin> set [''a'', ''b'']"
    by simp_all
  from swa_never_both_eps [OF n e] n e show ?thesis
    by simp
qed

section \<open>Identical sequences\<close>

lemma dp_cell_fixed_upper:
  "fst (dp_cell rs hs sim_fixed (- 1) (- 1) True m n) \<le> 2 * int (min m n)"
proof (induction rs hs "sim_fixed :: 'a \<Rightarrow> 'a \<Rightarrow> int" "- 1 :: int" "- 1 :: int" True m n
       rule: dp_cell.induct)
  case (1 rs hs n)
  then show ?case by (simp add: init_cell_def)
next
  case (2 rs hs m)
  then show ?case by (simp add: init_cell_def)
next
  case (3 rs hs m n)
  define c0 where "c0 = init_cell (- 1) True (length hs) (Suc m) (Suc n)"
  define s where "s = fst (dp_cell rs hs sim_fixed (- 1) (- 1) True m n)
                        + sim_fixed (rs ! m) (hs ! n)"
  define dl where "dl = fst (dp_cell rs hs sim_fixed (- 1) (- 1) True m (Suc n)) + (- 1)"
  define il where "il = fst (dp_cell rs hs sim_fixed (- 1) (- 1) True (Suc m) n) + (- 1)"
  have eq: "dp_cell rs hs sim_fixed (- 1) (- 1) True (Suc m) (Suc n)
              = cell_of True c0 s dl il (Suc m) (Suc n)"
    by (simp add: c0_def s_def dl_def il_def)
  have "fst c0 \<le> 2 * int (min (Suc m) (Suc n))"
    by (simp add: c0_def init_cell_def)
  moreover have "s \<le> 2 * int (min (Suc m) (Suc n))"
    using "3.hyps"(1) by (simp add: s_def sim_fixed_def min_def split: if_splits)
  moreover have "dl \<le> 2 * int (min (Suc m) (Suc n))"
    using "3.hyps"(2) by (simp add: dl_def min_def split: if_splits)
  moreover have "il \<le> 2 * int (min (Suc m) (Suc n))"
    using "3.hyps"(3) by (simp add: il_def min_def split: if_splits)
  ultimately show ?case
    using cell_of_value [of True c0 s dl il "Suc m" "Suc n"] unfolding eq by auto
qed

lemma dp_cell_same_diag:
  "fst (dp_cell rs rs sim_fixed (- 1) (- 1) True k k) = 2 * int k \<and>
   (1 \<le> k \<longrightarrow> snd (dp_cell rs rs sim_fixed (- 1) (- 1) True k k) = (k - 1, k - 1))"
proof (induction k)
  case 0
  show ?case by (simp add: init_cell_def)
next
  case (Suc k)
  define c0 where "c0 = init_cell (- 1) True (length rs) (Suc k) (Suc k)"
  define s where "s = fst (dp_cell rs rs sim_fixed (- 1) (- 1) True k k)
                        + sim_fixed (rs ! k) (rs ! k)"
  define dl where "dl = fst (dp_cell rs rs sim_fixed (- 1) (- 1) True k (Suc k)) + (- 1)"
  define il where "il = fst (dp_cell rs rs sim_fixed (- 1) (- 1) True (Suc k) k) + (- 1)"
  have eq: "dp_cell rs rs sim_fixed (- 1) (- 1) True (Suc k) (Suc k)
              = cell_of True c0 s dl il (Suc k) (Suc k)"
    by (simp add: c0_def s_def dl_def il_def)
  have "sim_fixed (rs ! k) (rs ! k) = 2"
    by (simp add: sim_fixed_def)
  then have s: "s = 2 * int (Suc k)"
    using Suc.IH by (simp add: s_def)
  have "fst c0 \<le> s"
    unfolding s by (simp add: c0_def init_cell_def)
  moreover have "dl \<le> s"
    using dp_cell_fixed_upper [of rs rs k "Suc k"] unfolding s dl_def by simp
  moreover have "il \<le> s"
    using dp_cell_fixed_upper [of rs rs "Suc k" k] unfolding s il_def by simp
  ultimately have "cell_of True c0 s dl il (Suc k) (Suc k) = (s, (Suc k - 1, Suc k - 1))"
    by (rule cell_of_diag)
  then show ?case unfolding eq s by simp
qed

lemma best_end_same:
  assumes "rs \<noteq> []"
  shows "best_end rs rs sim_fixed (- 1) (- 1) (length rs)
           = (Num (2 * int (length rs)), (length rs, length rs))"
proof -
  obtain k where k: "length rs = Suc k"
    using assms by (cases rs) auto
  have v: "fst (dp_cell rs rs sim_fixed (- 1) (- 1) True (Suc k) (length rs)) = 2 * int (Suc k)"
    using dp_cell_same_diag [of rs "Suc k"] unfolding k by blast
  have "ge_score (2 * int (Suc k)) (fst (best_end rs rs sim_fixed (- 1) (- 1) k))"
  proof (cases "k = 0")
    case True
    then show ?thesis by simp
  next
    case False
    then have "1 \<le> k" by simp
    from best_end_cell [OF this, of rs rs sim_fixed "- 1" "- 1"]
    obtain m where m: "m \<le> k"
      "best_end rs rs sim_fixed (- 1) (- 1) k
         = (Num (fst (dp_cell rs rs sim_fixed (- 1) (- 1) True m (length rs))), (m, length rs))"
      by blast
    have "fst (dp_cell rs rs sim_fixed (- 1) (- 1) True m (length rs)) \<le> 2 * int (min m (length rs))"
      by (rule dp_cell_fixed_upper)
    then show ?thesis using m(1) unfolding m(2) k by simp
  qed
  then show ?thesis
    using v by (simp add: k del: dp_cell.simps)
qed

lemma traceback_diagonal:
  assumes "\<And>j. 1 \<le> j \<Longrightarrow> j \<le> k \<Longrightarrow> mget bp j j = (j - 1, j - 1)"
    and "mget H 1 1 \<noteq> 0" and "1 \<le> k"
  shows "\<exists>sc'. traceback rs hs eps True H bp k k sc out =
           Inr (out @ map (\<lambda>j. (word_at rs j eps, word_at hs j eps, j - 1, j - 1, j, j))
                         (rev [1..<k + 1]), sc')"
  using assms(3,1)
proof (induction k arbitrary: sc out rule: dec_induct)
  case base
  have "mget bp 1 1 = (0, 0)" using base [of 1] by simp
  from traceback_full_base [OF _ this assms(2), of rs hs eps sc out]
  show ?case by simp
next
  case (step k)
  have b: "mget bp (Suc k) (Suc k) = (k, k)"
    using step.prems [of "Suc k"] by simp
  have ne: "(k, k) \<noteq> (0, 0)" using step.hyps by simp
  from step.IH [of "Num (mget H k k)"
      "out @ [(word_at rs (Suc k) eps, word_at hs (Suc k) eps, k, k, Suc k, Suc k)]"]
    step.prems
  obtain sc' where
    "traceback rs hs eps True H bp k k (Num (mget H k k))
       (out @ [(word_at rs (Suc k) eps, word_at hs (Suc k) eps, k, k, Suc k, Suc k)])
     = Inr ((out @ [(word_at rs (Suc k) eps, word_at hs (Suc k) eps, k, k, Suc k, Suc k)])
              @ map (\<lambda>j. (word_at rs j eps, word_at hs j eps, j - 1, j - 1, j, j))
                    (rev [1..<k + 1]), sc')"
    by auto
  then show ?case
    unfolding traceback_full_diag [OF b ne] by simp
qed


lemma swa_same:
  assumes "rs \<noteq> []"
  shows "smith_waterman_alignment rs rs sim_fixed (- 1) (- 1) eps True
           = Inr (map (\<lambda>k. (rs ! k, rs ! k, k, k, Suc k, Suc k)) [0..<length rs],
                  Num (2 * int (length rs)))"
proof -
  have len: "1 \<le> length rs"
    using assms by (simp add: Suc_le_eq)
  obtain H0 bp0 where init: "init_matrices (- 1) True (length rs) (length rs) = (H0, bp0)"
    by (cases "init_matrices (- 1) True (length rs) (length rs)")
  obtain H bp ms me where
    fill: "fill_matrices rs rs sim_fixed (- 1) (- 1) True (H0, bp0, MinusInf, (0, 0))
             = (H, bp, ms, me)"
    by (cases "fill_matrices rs rs sim_fixed (- 1) (- 1) True (H0, bp0, MinusInf, (0, 0))")
  note res = fill_matrices_result [OF init fill]
  have mx: "ms = Num (2 * int (length rs))" "me = (length rs, length rs)"
    using res(4) [OF _ assms] best_end_same [OF assms] by simp_all
  have diag: "mget bp j j = (j - 1, j - 1)" if "1 \<le> j" "j \<le> length rs" for j
    using res(3) [OF that(2) that(2)] dp_cell_same_diag [of rs j] that(1) by simp
  have "mget H 1 1 = 2 * int 1"
    using res(3) [OF len len] dp_cell_same_diag [of rs 1] by (simp only:)
  then have h11: "mget H 1 1 \<noteq> 0" by simp
  define recs where "recs = map (\<lambda>j. (word_at rs j eps, word_at rs j eps, j - 1, j - 1, j, j))
                                (rev [1..<length rs + 1])"
  from traceback_diagonal [of "length rs" bp H rs rs eps ms "[]", OF diag h11 len]
  obtain sc' where
    tb: "traceback rs rs eps True H bp (length rs) (length rs) ms [] = Inr (recs, sc')"
    unfolding recs_def by auto
  have u: "[1..<length rs + 1] = map Suc [0..<length rs]"
    by (simp add: map_Suc_upt)
  have rr: "rev recs = map (\<lambda>k. (rs ! k, rs ! k, k, k, Suc k, Suc k)) [0..<length rs]"
    unfolding recs_def u by (simp add: rev_map word_at_def o_def)
  show ?thesis
    by (simp add: smith_waterman_alignment_def init fill mx tb [unfolded mx] rr)
qed

text \<open>
  C4: for identical non-empty sequences every edit type is \<open>cor\<close> (one per token), and the
  aligner returns the diagonal alignment with score \<open>2 * len(ref)\<close>.
\<close>

theorem identical_sequences_all_correct:
  assumes "ref_tok \<noteq> []"
  shows "align_and_calc_edit_types ref_tok ref_tok = Inr (replicate (length ref_tok) ''cor'') \<and>
         smith_waterman_alignment ref_tok ref_tok sim_fixed (- 1) (- 1) ''|'' True
           = Inr (map (\<lambda>k. (ref_tok ! k, ref_tok ! k, k, k, Suc k, Suc k)) [0..<length ref_tok],
                  Num (2 * int (length ref_tok)))"
proof -
  have "map (\<lambda>k. ''cor'') [0..<length ref_tok] = replicate (length ref_tok) ''cor''"
    by (simp add: map_replicate_const)
  then show ?thesis
    by (simp add: align_and_calc_edit_types_def swa_same [OF assms] get_edit_type_def o_def)
qed

theorem identical_sequences_all_correct_witness:
  "[''a'', ''b''] \<noteq> [] \<and>
   align_and_calc_edit_types [''a'', ''b''] [''a'', ''b''] = Inr [''cor'', ''cor''] \<and>
   smith_waterman_alignment [''a'', ''b''] [''a'', ''b''] sim_fixed (- 1) (- 1) ''|'' True
     = Inr ([(''a'', ''a'', 0, 0, 1, 1), (''b'', ''b'', 1, 1, 2, 2)], Num 4)"
proof -
  have h: "[''a'', ''b''] \<noteq> []" by simp
  have u: "[0..<2] = [0, 1]" by (simp add: upt_rec)
  from identical_sequences_all_correct [OF h] show ?thesis
    by (simp add: u numeral_2_eq_2)
qed

section \<open>Padding covers the reference\<close>

lemma refi_from_Alignment_of [simp]: "refi_from (Alignment_of p) = ref_from p"
  by (cases p) (simp add: Alignment_of_def ref_from_def)

lemma hypi_from_Alignment_of [simp]: "hypi_from (Alignment_of p) = hyp_from p"
  by (cases p) (simp add: Alignment_of_def hyp_from_def)

lemma padded_alignments_chain:
  assumes ne: "rs \<noteq> []" "hs \<noteq> []"
  shows "\<exists>recs m. chain m (length hs) recs \<and> recs \<noteq> [] \<and> 1 \<le> m \<and> m \<le> length rs \<and>
           padded_alignments rs hs eps =
             Inr (pad_left rs eps (ref_from (last recs)) @ map Alignment_of (rev recs)
                  @ pad_right rs hs eps (ref_from (hd recs)))"
proof -
  have s: "- 1 \<le> (- 1 :: int)" "(- 1 :: int) \<noteq> 0" "sim_fixed (rs ! 0) (hs ! 0) \<noteq> 0"
    by (simp_all add: sim_fixed_def)
  from swa_full_chain [where sim = sim_fixed, OF ne s, of "- 1" eps]
  obtain recs m where
    r: "smith_waterman_alignment rs hs sim_fixed (- 1) (- 1) eps True
          = Inr (rev recs, Num (fst (dp_cell rs hs sim_fixed (- 1) (- 1) True m (length hs))))"
    and ch: "chain m (length hs) recs" and m: "1 \<le> m" "m \<le> length rs"
    by blast
  have n: "recs \<noteq> []"
    using chain_nonempty [OF ch] ne(2) by simp
  from chain_ref_range [OF ch n]
  have st: "ref_from (last recs) \<le> length rs"
    using m(2) by simp
  have "padded_alignments rs hs eps =
             Inr (pad_left rs eps (ref_from (last recs)) @ map Alignment_of (rev recs)
                  @ pad_right rs hs eps (ref_from (hd recs)))"
    using n st
    by (simp add: padded_alignments_def r Let_def hd_map last_map hd_rev last_rev
                  pad_left_def pad_right_def)
  then show ?thesis using ch n m by blast
qed

lemma padded_alignments_cover:
  assumes ne: "rs \<noteq> []" "hs \<noteq> []"
  shows "\<exists>al. padded_alignments rs hs eps = Inr al \<and>
              {0..<length rs} \<subseteq> refi_from ` set al \<and>
              refi_from ` set al \<subseteq> {0..length rs}"
proof -
  from padded_alignments_chain [OF ne, of eps]
  obtain recs m where ch: "chain m (length hs) recs" and n: "recs \<noteq> []"
    and m: "1 \<le> m" "m \<le> length rs"
    and p: "padded_alignments rs hs eps =
             Inr (pad_left rs eps (ref_from (last recs)) @ map Alignment_of (rev recs)
                  @ pad_right rs hs eps (ref_from (hd recs)))"
    by blast
  define a where "a = ref_from (last recs)"
  define b where "b = ref_from (hd recs)"
  from chain_ref_range [OF ch n]
  have rg: "ref_from ` set recs = {a..b}" "a \<le> b" "b \<le> m"
    by (simp_all add: a_def b_def)
  have i1: "refi_from ` set (pad_left rs eps a) = {0..<a}"
    by (simp add: pad_left_def image_image)
  have i2: "refi_from ` set (map Alignment_of (rev recs)) = {a..b}"
    using rg(1) by (simp add: image_image)
  have i3: "refi_from ` set (pad_right rs hs eps b) = {b + 1..<length rs}"
    by (simp add: pad_right_def image_image)
  have "refi_from ` set (pad_left rs eps a @ map Alignment_of (rev recs) @ pad_right rs hs eps b)
          = {0..<a} \<union> {a..b} \<union> {b + 1..<length rs}"
    unfolding set_append image_Un i1 i2 i3 by (simp add: Un_assoc)
  moreover have "{0..<length rs} \<subseteq> {0..<a} \<union> {a..b} \<union> {b + 1..<length rs}"
    by auto
  moreover have "{0..<a} \<union> {a..b} \<union> {b + 1..<length rs} \<subseteq> {0..length rs}"
    using rg(2,3) m(2) by auto
  ultimately show ?thesis
    using p unfolding a_def b_def by simp
qed

text \<open>
  C5, as the code has it: for a non-empty reference and a non-empty hypothesis
  \<^verbatim>\<open>padded_alignments\<close> returns, every reference position \<open>0, \<dots>, len(ref) - 1\<close>
  occurs as a \<^verbatim>\<open>refi_from\<close>, and no value above \<open>len(ref)\<close> does. The value
  \<open>len(ref)\<close> itself can occur: an insertion after the last reference token starts there.
\<close>

theorem padded_alignments_reference_coverage:
  assumes "ref_tok \<noteq> []" "hyp_tok \<noteq> []"
  shows "\<exists>alignments. padded_alignments ref_tok hyp_tok eps = Inr alignments \<and>
           {0..<length ref_tok} \<subseteq> refi_from ` set alignments \<and>
           refi_from ` set alignments \<subseteq> {0..length ref_tok}"
  by (rule padded_alignments_cover [OF assms])

theorem padded_alignments_reference_coverage_witness:
  "padded_alignments [''a'', ''b''] [''b''] ''|''
     = Inr [\<lparr>ref = ''a'', hyp = ''|'', refi_from = 0, hypi_from = 0,
              refi_to = None, hypi_to = None\<rparr>,
            \<lparr>ref = ''b'', hyp = ''b'', refi_from = 1, hypi_from = 0,
              refi_to = Some 2, hypi_to = Some 1\<rparr>] \<and>
   {0..<length [''a'', ''b'']} \<subseteq> {0, 1 :: nat}"
proof -
  have e: "padded_alignments [''a'', ''b''] [''b''] ''|''
     = Inr [\<lparr>ref = ''a'', hyp = ''|'', refi_from = 0, hypi_from = 0,
              refi_to = None, hypi_to = None\<rparr>,
            \<lparr>ref = ''b'', hyp = ''b'', refi_from = 1, hypi_from = 0,
              refi_to = Some 2, hypi_to = Some 1\<rparr>]"
    by code_simp
  have h: "[''a'', ''b''] \<noteq> []" "[''b''] \<noteq> []" by simp_all
  from padded_alignments_reference_coverage [OF h, of "''|''"]
  obtain al where a: "padded_alignments [''a'', ''b''] [''b''] ''|'' = Inr al"
    "{0..<length [''a'', ''b'']} \<subseteq> refi_from ` set al"
    by blast
  from a(1) have "al = [\<lparr>ref = ''a'', hyp = ''|'', refi_from = 0, hypi_from = 0,
              refi_to = None, hypi_to = None\<rparr>,
            \<lparr>ref = ''b'', hyp = ''b'', refi_from = 1, hypi_from = 0,
              refi_to = Some 2, hypi_to = Some 1\<rparr>]"
    unfolding e by simp
  with a(2) e show ?thesis by simp
qed

text \<open>
  C5 as stated fails: for \<open>ref = ["a"]\<close> and \<open>hyp = ["a", "b"]\<close> the position 1, which is
  out of range, occurs.
\<close>

theorem padded_alignments_out_of_range_counterexample:
  "padded_alignments [''a''] [''a'', ''b''] ''|''
     = Inr [\<lparr>ref = ''a'', hyp = ''a'', refi_from = 0, hypi_from = 0,
              refi_to = Some 1, hypi_to = Some 1\<rparr>,
            \<lparr>ref = ''|'', hyp = ''b'', refi_from = 1, hypi_from = 1,
              refi_to = Some 1, hypi_to = Some 2\<rparr>] \<and>
   refi_from ` set [\<lparr>ref = ''a'', hyp = ''a'', refi_from = 0, hypi_from = 0,
                      refi_to = Some 1, hypi_to = Some 1\<rparr>,
                    \<lparr>ref = ''|'', hyp = ''b'', refi_from = 1, hypi_from = 1,
                      refi_to = Some 1, hypi_to = Some 2\<rparr>]
     \<noteq> {0..<length [''a'']}"
proof -
  have "padded_alignments [''a''] [''a'', ''b''] ''|''
     = Inr [\<lparr>ref = ''a'', hyp = ''a'', refi_from = 0, hypi_from = 0,
              refi_to = Some 1, hypi_to = Some 1\<rparr>,
            \<lparr>ref = ''|'', hyp = ''b'', refi_from = 1, hypi_from = 1,
              refi_to = Some 1, hypi_to = Some 2\<rparr>]"
    by code_simp
  then show ?thesis by auto
qed

section \<open>Aligned n-grams\<close>

lemma getitem_update:
  "getitem (AList.update k v d) k' = (if k' = k then v else getitem d k')"
  by (simp add: getitem_def update_conv')

lemma getitem_fold:
  "getitem (fold (\<lambda>a d. AList.update (refi_from a) (getitem d (refi_from a) @ [a]) d) al d) k
     = getitem d k @ bucket al k"
  by (induction al arbitrary: d) (simp_all add: bucket_def getitem_update)

lemma getitem_group_by_refi: "getitem (group_by_refi al) k = bucket al k"
  unfolding group_by_refi_def getitem_fold by (simp add: getitem_def)

lemma list_all_update:
  "list_all (\<lambda>(k, v). Q v) d \<Longrightarrow> Q v \<Longrightarrow> list_all (\<lambda>(k, v). Q v) (AList.update k v d)"
  by (induction d) auto

lemma list_all_fold:
  "list_all (\<lambda>(k, v). length v > 0) d \<Longrightarrow>
   list_all (\<lambda>(k, v). length v > 0)
     (fold (\<lambda>a d. AList.update (refi_from a) (getitem d (refi_from a) @ [a]) d) al d)"
proof (induction al arbitrary: d)
  case Nil
  then show ?case by simp
next
  case (Cons a al)
  have "list_all (\<lambda>(k, v). length v > 0)
          (AList.update (refi_from a) (getitem d (refi_from a) @ [a]) d)"
    by (rule list_all_update [OF Cons.prems]) simp
  from Cons.IH [OF this] show ?case by simp
qed

lemma group_by_refi_nonempty: "list_all (\<lambda>(k, v). length v > 0) (group_by_refi al)"
  unfolding group_by_refi_def by (rule list_all_fold) simp

lemma collect_Inr: "collect (map Inr ys) = Inr ys"
  by (induction ys) simp_all

lemma bucket_refi: "a \<in> set (bucket al k) \<Longrightarrow> refi_from a = k"
  by (simp add: bucket_def)

lemma hd_concat_buckets:
  assumes "f k \<noteq> []" "0 < n"
  shows "hd (concat (map f [k..<k + n])) = hd (f k)"
proof -
  have "[k..<k + n] = k # [Suc k..<k + n]"
    using assms(2) by (simp add: upt_rec)
  then show ?thesis using assms(1) by simp
qed

lemma last_concat_buckets:
  assumes "f (k + n - 1) \<noteq> []" "0 < n"
  shows "last (concat (map f [k..<k + n])) = last (f (k + n - 1))"
proof -
  obtain n' where n: "n = Suc n'" using assms(2) by (cases n) auto
  have "[k..<k + n] = [k..<k + n'] @ [k + n']"
    by (simp add: n)
  then show ?thesis using assms(1) by (simp add: n)
qed

lemma ngram_tuple_ok:
  assumes ne: "\<And>i. i < length rs \<Longrightarrow> bucket al i \<noteq> []"
    and o: "1 \<le> n" and k: "k + n \<le> length rs"
  shows "ngram_tuple rs hs (group_by_refi al) n k =
           Inr (slice hs (hypi_from (hd (bucket al k)))
                         (hypi_from (last (bucket al (k + n - 1))) + 1),
                take n (drop k rs))"
proof -
  define ngram where "ngram = concat (map (bucket al) [k..<k + n])"
  have g: "getitem (group_by_refi al) = bucket al"
    by (rule ext) (rule getitem_group_by_refi)
  have b1: "bucket al k \<noteq> []" and b2: "bucket al (k + n - 1) \<noteq> []"
    using ne o k by simp_all
  have h: "hd ngram = hd (bucket al k)"
    unfolding ngram_def
    by (rule hd_concat_buckets [where f = "bucket al", OF b1]) (use o in simp)
  have l: "last ngram = last (bucket al (k + n - 1))"
    unfolding ngram_def
    by (rule last_concat_buckets [where f = "bucket al", OF b2]) (use o in simp)
  have nn: "ngram \<noteq> []"
    using b1 o unfolding ngram_def by (simp add: upt_rec [of k "k + n"])
  have "refi_from (hd (bucket al k)) = k"
    by (rule bucket_refi [OF hd_in_set [OF b1]])
  moreover have "refi_from (last (bucket al (k + n - 1))) = k + n - 1"
    by (rule bucket_refi [OF last_in_set [OF b2]])
  ultimately have "slice rs (refi_from (hd ngram)) (refi_from (last ngram) + 1)
                     = take n (drop k rs)"
    using o by (simp add: h l slice_def)
  then show ?thesis
    using nn unfolding ngram_tuple_def g ngram_def [symmetric] Let_def
    by (simp add: h l)
qed


lemma calc_aligned_ngram_tuples_ok:
  assumes ne: "rs \<noteq> []" "hs \<noteq> []"
  shows "\<exists>al. padded_alignments rs hs ''|'' = Inr al \<and>
           (\<forall>k < length rs. bucket al k \<noteq> []) \<and>
           (\<forall>order. calc_aligned_ngram_tuples rs hs order =
              Inr (concat (map (\<lambda>n.
                     map (\<lambda>k. (slice hs (hypi_from (hd (bucket al k)))
                                          (hypi_from (last (bucket al (k + n - 1))) + 1),
                                take n (drop k rs)))
                         [0..<length rs - (n - 1)])
                   [1..<nat (order + 1)])))"
proof -
  from padded_alignments_cover [OF ne, of "''|''"]
  obtain al where p: "padded_alignments rs hs ''|'' = Inr al"
    and c: "{0..<length rs} \<subseteq> refi_from ` set al"
    by blast
  have b: "bucket al k \<noteq> []" if "k < length rs" for k
  proof -
    have "k \<in> refi_from ` set al" using c that by auto
    then obtain a where "a \<in> set al" "refi_from a = k" by auto
    then show ?thesis by (auto simp: bucket_def filter_empty_conv)
  qed
  define w where "w n k = (slice hs (hypi_from (hd (bucket al k)))
                                    (hypi_from (last (bucket al (k + n - 1))) + 1),
                           take n (drop k rs))" for n k
  have "calc_aligned_ngram_tuples rs hs order =
          Inr (concat (map (\<lambda>n. map (w n) [0..<length rs - (n - 1)]) [1..<nat (order + 1)]))"
    for order
  proof -
    have "map (\<lambda>n. map (ngram_tuple rs hs (group_by_refi al) n) [0..<length rs - (n - 1)])
              [1..<nat (order + 1)]
          = map (\<lambda>n. map Inr (map (w n) [0..<length rs - (n - 1)])) [1..<nat (order + 1)]"
    proof (rule map_cong [OF refl])
      fix n assume "n \<in> set [1..<nat (order + 1)]"
      then have n: "1 \<le> n" by simp
      have "ngram_tuple rs hs (group_by_refi al) n k = Inr (w n k)"
        if "k \<in> set [0..<length rs - (n - 1)]" for k
      proof -
        have "k + n \<le> length rs" using that n by simp
        from ngram_tuple_ok [OF b n this, of hs] show ?thesis
          by (simp add: w_def)
      qed
      then show "map (ngram_tuple rs hs (group_by_refi al) n) [0..<length rs - (n - 1)]
                 = map Inr (map (w n) [0..<length rs - (n - 1)])"
        by simp
    qed
    then have e1: "concat (map (\<lambda>n. map (ngram_tuple rs hs (group_by_refi al) n)
                                   [0..<length rs - (n - 1)]) [1..<nat (order + 1)])
          = concat (map (\<lambda>n. map Inr (map (w n) [0..<length rs - (n - 1)]))
                        [1..<nat (order + 1)])"
      by (simp only:)
    have e2: "concat (map (\<lambda>n. map Inr (map (w n) [0..<length rs - (n - 1)]))
                        [1..<nat (order + 1)])
          = map Inr (concat (map (\<lambda>n. map (w n) [0..<length rs - (n - 1)])
                                 [1..<nat (order + 1)]))"
      by (simp add: map_concat o_def)
    have "calc_aligned_ngram_tuples rs hs order =
            collect (concat (map (\<lambda>n. map (ngram_tuple rs hs (group_by_refi al) n)
                                   [0..<length rs - (n - 1)]) [1..<nat (order + 1)]))"
      unfolding calc_aligned_ngram_tuples_def p
      using group_by_refi_nonempty [of al] by (simp add: Let_def)
    then show ?thesis
      unfolding e1 e2 collect_Inr .
  qed
  then show ?thesis
    using p b unfolding w_def by blast
qed

text \<open>
  C6, as the code has it. For a non-empty reference and a non-empty hypothesis the
  generator raises nothing; for order 1 it yields one pair per reference position \<open>k\<close>,
  in increasing order of \<open>k\<close>: the reference n-gram is \<open>[ref[k]]\<close> and the hypothesis
  n-gram is the slice of \<open>hyp\<close> from the \<^verbatim>\<open>hypi_from\<close> of the first record at position
  \<open>k\<close> to the \<^verbatim>\<open>hypi_from\<close> of the last one, inclusive. For a general order the pairs
  come in increasing order of the n-gram length, then in increasing start position.
\<close>

theorem calc_aligned_ngram_tuples_emission:
  assumes "ref_tok \<noteq> []" "hyp_tok \<noteq> []"
  shows "\<exists>al. padded_alignments ref_tok hyp_tok ''|'' = Inr al \<and>
           (\<forall>k < length ref_tok. bucket al k \<noteq> []) \<and>
           calc_aligned_ngram_tuples ref_tok hyp_tok 1 =
             Inr (map (\<lambda>k. (slice hyp_tok (hypi_from (hd (bucket al k)))
                                           (hypi_from (last (bucket al k)) + 1),
                             [ref_tok ! k]))
                      [0..<length ref_tok]) \<and>
           calc_aligned_ngram_tuples ref_tok hyp_tok order =
             Inr (concat (map (\<lambda>n.
                    map (\<lambda>k. (slice hyp_tok (hypi_from (hd (bucket al k)))
                                             (hypi_from (last (bucket al (k + n - 1))) + 1),
                               take n (drop k ref_tok)))
                        [0..<length ref_tok - (n - 1)])
                  [1..<nat (order + 1)]))"
proof -
  from calc_aligned_ngram_tuples_ok [OF assms]
  obtain al where p: "padded_alignments ref_tok hyp_tok ''|'' = Inr al"
    and b: "\<forall>k < length ref_tok. bucket al k \<noteq> []"
    and c: "\<And>order. calc_aligned_ngram_tuples ref_tok hyp_tok order =
              Inr (concat (map (\<lambda>n.
                     map (\<lambda>k. (slice hyp_tok (hypi_from (hd (bucket al k)))
                                          (hypi_from (last (bucket al (k + n - 1))) + 1),
                                take n (drop k ref_tok)))
                         [0..<length ref_tok - (n - 1)])
                   [1..<nat (order + 1)]))"
    by blast
  have "map (\<lambda>k. (slice hyp_tok (hypi_from (hd (bucket al k)))
                                  (hypi_from (last (bucket al (k + 1 - 1))) + 1),
                   take 1 (drop k ref_tok))) [0..<length ref_tok]
        = map (\<lambda>k. (slice hyp_tok (hypi_from (hd (bucket al k)))
                                    (hypi_from (last (bucket al k)) + 1),
                     [ref_tok ! k])) [0..<length ref_tok]"
    by (rule map_cong [OF refl]) (simp add: take_Suc_conv_app_nth hd_drop_conv_nth take_Suc)
  then have "calc_aligned_ngram_tuples ref_tok hyp_tok 1 =
             Inr (map (\<lambda>k. (slice hyp_tok (hypi_from (hd (bucket al k)))
                                           (hypi_from (last (bucket al k)) + 1),
                             [ref_tok ! k]))
                      [0..<length ref_tok])"
    unfolding c [of 1] by (simp add: numeral_2_eq_2)
  then show ?thesis
    using p b c [of order] by blast
qed

theorem calc_aligned_ngram_tuples_emission_witness:
  "[''a'', ''b''] \<noteq> [] \<and> [''b''] \<noteq> [] \<and>
   calc_aligned_ngram_tuples [''a'', ''b''] [''b''] 1
     = Inr [([''b''], [''a'']), ([''b''], [''b''])] \<and>
   calc_aligned_ngram_tuples [''a'', ''b''] [''b''] 2
     = Inr [([''b''], [''a'']), ([''b''], [''b'']), ([''b''], [''a'', ''b''])]"
proof -
  have h: "[''a'', ''b''] \<noteq> []" "[''b''] \<noteq> []" by simp_all
  have e: "calc_aligned_ngram_tuples [''a'', ''b''] [''b''] 1
     = Inr [([''b''], [''a'']), ([''b''], [''b''])]"
    "calc_aligned_ngram_tuples [''a'', ''b''] [''b''] 2
     = Inr [([''b''], [''a'']), ([''b''], [''b'']), ([''b''], [''a'', ''b''])]"
    by code_simp+
  from calc_aligned_ngram_tuples_emission [OF h, of 2] h e show ?thesis
    by blast
qed

text \<open>
  C6 as stated fails: for \<open>ref = ["a", "b"]\<close> and \<open>hyp = ["b"]\<close> the padded alignment
  pairs \<open>a\<close> with the sentinel and \<open>b\<close> with \<open>b\<close>, but the generator yields
  \<open>(["b"], ["a"])\<close> for position 0.
\<close>

theorem calc_aligned_ngram_tuples_counterexample:
  "calc_aligned_ngram_tuples [''a'', ''b''] [''b''] 1
     = Inr [([''b''], [''a'']), ([''b''], [''b''])] \<and>
   padded_alignments [''a'', ''b''] [''b''] ''|''
     = Inr [\<lparr>ref = ''a'', hyp = ''|'', refi_from = 0, hypi_from = 0,
              refi_to = None, hypi_to = None\<rparr>,
            \<lparr>ref = ''b'', hyp = ''b'', refi_from = 1, hypi_from = 0,
              refi_to = Some 2, hypi_to = Some 1\<rparr>] \<and>
   spec_position_pairs
       [\<lparr>ref = ''a'', hyp = ''|'', refi_from = 0, hypi_from = 0,
          refi_to = None, hypi_to = None\<rparr>,
        \<lparr>ref = ''b'', hyp = ''b'', refi_from = 1, hypi_from = 0,
          refi_to = Some 2, hypi_to = Some 1\<rparr>] ''|'' (length [''a'', ''b''])
     = [([], [''a'']), ([''b''], [''b''])] \<and>
   [([''b''], [''a'']), ([''b''], [''b''])] \<noteq> [([], [''a'']), ([''b''], [''b''])]"
proof -
  have "calc_aligned_ngram_tuples [''a'', ''b''] [''b''] 1
     = Inr [([''b''], [''a'']), ([''b''], [''b''])]"
    by code_simp
  moreover have "padded_alignments [''a'', ''b''] [''b''] ''|''
     = Inr [\<lparr>ref = ''a'', hyp = ''|'', refi_from = 0, hypi_from = 0,
              refi_to = None, hypi_to = None\<rparr>,
            \<lparr>ref = ''b'', hyp = ''b'', refi_from = 1, hypi_from = 0,
              refi_to = Some 2, hypi_to = Some 1\<rparr>]"
    by code_simp
  moreover have "spec_position_pairs
       [\<lparr>ref = ''a'', hyp = ''|'', refi_from = 0, hypi_from = 0,
          refi_to = None, hypi_to = None\<rparr>,
        \<lparr>ref = ''b'', hyp = ''b'', refi_from = 1, hypi_from = 0,
          refi_to = Some 2, hypi_to = Some 1\<rparr>] ''|'' (length [''a'', ''b''])
     = [([], [''a'']), ([''b''], [''b''])]"
    by code_simp
  ultimately show ?thesis by simp
qed

section \<open>Local mode on non-empty input\<close>

lemma cell_of_local_nonneg:
  "0 \<le> fst c0 \<Longrightarrow> 0 \<le> fst (cell_of False c0 s dl il m n)"
  by (simp add: cell_of_def Let_def)

lemma dp_cell_local_nonneg: "0 \<le> fst (dp_cell rs hs sim d i False m n)"
proof (cases "1 \<le> m \<and> 1 \<le> n")
  case True
  then show ?thesis
    by (simp only: dp_cell_step [of m n]) (rule cell_of_local_nonneg, simp add: init_cell_def)
next
  case False
  then have "m = 0 \<or> n = 0" by auto
  then show ?thesis by (cases m) (auto simp: init_cell_def dp_cell_col0)
qed

lemma dp_cell_local_bp:
  assumes "1 \<le> m" "1 \<le> n"
  shows "snd (dp_cell rs hs sim d i False m n) \<in> {(m - 1, n - 1), (m - 1, n), (m, n - 1)}
         \<or> snd (dp_cell rs hs sim d i False m n) = (0, 0)"
proof -
  define c0 where "c0 = init_cell i False (length hs) m n"
  have c0: "snd c0 = (0, 0)" by (simp add: c0_def init_cell_def)
  show ?thesis
    unfolding dp_cell_step [OF assms] c0_def [symmetric]
    using cell_of_bp [of False c0 _ _ _ m n] c0 by metis
qed

lemma dp_cell_local_boundary:
  "m = 0 \<or> n = 0 \<Longrightarrow> dp_cell rs hs sim d i False m n = (0, (0, 0))"
  by (cases m) (auto simp: init_cell_def dp_cell_col0)

lemma traceback_local_returns:
  assumes nonneg: "\<And>m n. m \<le> R \<Longrightarrow> n \<le> L \<Longrightarrow> 0 \<le> mget H m n"
    and h00: "mget H 0 0 = 0"
    and bnd: "\<And>m n. m \<le> R \<Longrightarrow> n \<le> L \<Longrightarrow> m = 0 \<or> n = 0 \<Longrightarrow> mget bp m n = (0, 0)"
    and inner: "\<And>m n. 1 \<le> m \<Longrightarrow> m \<le> R \<Longrightarrow> 1 \<le> n \<Longrightarrow> n \<le> L \<Longrightarrow>
                  mget bp m n \<in> {(m - 1, n - 1), (m - 1, n), (m, n - 1)} \<or> mget bp m n = (0, 0)"
  shows "m \<le> R \<Longrightarrow> n \<le> L \<Longrightarrow> 0 \<le> v \<Longrightarrow>
         \<exists>out'. traceback rs hs eps False H bp m n (Num v) out = Inr (out', Num 0)"
proof (induction "m + n" arbitrary: m n v out rule: less_induct)
  case less
  obtain pm pn where bp: "mget bp m n = (pm, pn)"
    by (cases "mget bp m n")
  have go: "(\<not> False \<and> score_nonneg (Num v)) \<or> (False \<and> 0 < n)"
    using less.prems(3) by simp
  have rec: "\<exists>out'. traceback rs hs eps False H bp pm pn (Num (mget H pm pn)) out1
                      = Inr (out', Num 0)"
    if "pm + pn < m + n" "pm \<le> m" "pn \<le> n" for out1
  proof -
    have "pm \<le> R" "pn \<le> L" using that(2,3) less.prems(1,2) by simp_all
    then show ?thesis
      using less.hyps [OF that(1) _ _ nonneg] by blast
  qed
  show ?case
  proof (cases "(pm, pn) = (m, n) \<or> (pm, pn) = (0, 0)")
    case stop: True
    have z: "(pm, pn) = (0, 0)"
    proof (cases "m = 0 \<or> n = 0")
      case True
      then show ?thesis using bnd [OF less.prems(1,2)] bp by simp
    next
      case False
      then have "1 \<le> m" "1 \<le> n" by simp_all
      from inner [OF this(1) less.prems(1) this(2) less.prems(2)] stop bp \<open>1 \<le> m\<close> \<open>1 \<le> n\<close>
      show ?thesis by auto
    qed
    show ?thesis
      unfolding traceback_stop [OF go bp stop]
      using z h00 by simp
  next
    case cont: False
    have "\<not> (m = 0 \<or> n = 0)"
    proof
      assume "m = 0 \<or> n = 0"
      from bnd [OF less.prems(1,2) this] bp have "(pm, pn) = (0, 0)" by simp
      with cont show False by simp
    qed
    then have int: "1 \<le> m" "1 \<le> n" by simp_all
    from inner [OF int(1) less.prems(1) int(2) less.prems(2)] cont bp
    have "(pm, pn) \<in> {(m - 1, n - 1), (m - 1, n), (m, n - 1)}"
      by auto
    then consider
      (diag) "pm = m - 1" "pn = n - 1" | (del) "pm = m - 1" "pn = n" | (ins) "pm = m" "pn = n - 1"
      by auto
    then show ?thesis
    proof cases
      case diag
      then have d: "m = pm + 1 \<and> n = pn + 1" using int by simp
      show ?thesis
        unfolding traceback_diag [OF go bp cont d]
        by (rule rec) (use d in simp_all)
    next
      case del
      then have nd: "\<not> (m = pm + 1 \<and> n = pn + 1)" by simp
      have a: "int pm = int m - 1" using del(1) int(1) by simp
      show ?thesis
        unfolding traceback_del [OF go bp cont nd del(2)]
        using a rec [of _] del int by simp
    next
      case ins
      then have nd: "\<not> (m = pm + 1 \<and> n = pn + 1)" by simp
      have ne: "pn \<noteq> n" using ins(2) int(2) by simp
      have a: "int pn = int n - 1" using ins(2) int(2) by simp
      show ?thesis
        unfolding traceback_ins [OF go bp cont nd ne ins(1)]
        using a rec [of _] ins int by simp
    qed
  qed
qed


lemma cell_step_local_max:
  assumes inv: "fill_inv rs hs sim d i False k j st"
    and b: "1 \<le> k" "k \<le> length rs" "1 \<le> j" "j \<le> length hs"
    and mx: "score_nonneg (fst (snd (snd st))) \<or> fst (snd (snd st)) = MinusInf"
  shows "score_nonneg (fst (snd (snd (cell_step rs hs sim d i False k j st))))"
proof -
  obtain H bp ms me where st: "st = (H, bp, ms, me)" by (cases st)
  have dm: "dims (length rs) (length hs) H" "dims (length rs) (length hs) bp"
    and c: "(mget H k j, mget bp k j) = init_cell i False (length hs) k j"
    using inv b by (auto simp: fill_inv_def st)
  from tries_cell [OF dm b, of i d rs hs sim False]
  obtain H' bp' where
    t: "try_ins i k j (try_del d k j (try_sub rs hs sim False k j (H, bp))) = (H', bp')"
    and e: "(mget H' k j, mget bp' k j) =
              cell_of False (mget H k j, mget bp k j)
                (mget H (k - 1) (j - 1) + sim (rs ! (k - 1)) (hs ! (j - 1)))
                (mget H (k - 1) j + d) (mget H k (j - 1) + i) k j"
    by blast
  have "0 \<le> fst (mget H k j, mget bp k j)"
    unfolding c by (simp add: init_cell_def)
  then have "0 \<le> fst (mget H' k j, mget bp' k j)"
    unfolding e by (rule cell_of_local_nonneg)
  then have v: "0 \<le> mget H' k j" by simp
  show ?thesis
    using mx v by (cases ms) (simp_all add: st cell_step_def t)
qed

lemma fill_row_local_max:
  assumes inv: "fill_inv rs hs sim d i False k 1 st"
    and b: "1 \<le> k" "k \<le> length rs" and l: "1 \<le> length hs"
    and mx: "score_nonneg (fst (snd (snd st))) \<or> fst (snd (snd st)) = MinusInf"
  shows "fill_inv rs hs sim d i False k (length hs + 1) (fill_row rs hs sim d i False k st) \<and>
         score_nonneg (fst (snd (snd (fill_row rs hs sim d i False k st))))"
proof -
  define P where "P j s \<longleftrightarrow> fill_inv rs hs sim d i False k j s \<and>
        (score_nonneg (fst (snd (snd s))) \<or> (j = 1 \<and> fst (snd (snd s)) = MinusInf))"
    for j :: nat and s :: dp_state
  have base: "P 1 st" using inv mx by (simp add: P_def)
  have step: "P (Suc j) (cell_step rs hs sim d i False k j s)"
    if "1 \<le> j" "j < length hs + 1" "P j s" for j s
  proof -
    have jl: "j \<le> length hs" using that(2) by simp
    have fi: "fill_inv rs hs sim d i False k j s" using that(3) by (simp add: P_def)
    have m: "score_nonneg (fst (snd (snd s))) \<or> fst (snd (snd s)) = MinusInf"
      using that(3) by (auto simp: P_def)
    show ?thesis
      unfolding P_def
      using cell_step_inv [OF fi b that(1) jl] cell_step_local_max [OF fi b that(1) jl m]
      by simp
  qed
  have "P (length hs + 1) (fold (cell_step rs hs sim d i False k) [1..<length hs + 1] st)"
    by (rule fold_upt_rule [where P = P, OF base step]) auto
  moreover have "length hs + 1 \<noteq> 1" using l by auto
  ultimately show ?thesis
    unfolding P_def fill_row_def by blast
qed

lemma fill_matrices_local_max:
  assumes init: "init_matrices i False (length rs) (length hs) = (H0, bp0)"
    and ne: "rs \<noteq> []" "hs \<noteq> []"
  shows "score_nonneg (fst (snd (snd
           (fill_matrices rs hs sim d i False (H0, bp0, MinusInf, (0, 0))))))"
proof -
  have l: "1 \<le> length rs" "1 \<le> length hs"
    using ne by (simp_all add: Suc_le_eq)
  define P where "P k s \<longleftrightarrow> fill_inv rs hs sim d i False k 1 s \<and>
        (score_nonneg (fst (snd (snd s))) \<or> (k = 1 \<and> fst (snd (snd s)) = MinusInf))"
    for k :: nat and s :: dp_state
  from init_matrices_cells [OF init]
  have d0: "dims (length rs) (length hs) H0" "dims (length rs) (length hs) bp0"
    and c0: "\<And>m n. m \<le> length rs \<Longrightarrow> n \<le> length hs \<Longrightarrow>
               (mget H0 m n, mget bp0 m n) = init_cell i False (length hs) m n"
    by auto
  have "(if m < 1 \<or> (m = 1 \<and> n < 1) then dp_cell rs hs sim d i False m n
              else init_cell i False (length hs) m n) = init_cell i False (length hs) m n" for m n
    by (auto simp: dp_cell_col0)
  then have "fill_inv rs hs sim d i False 1 1 (H0, bp0, MinusInf, (0, 0))"
    unfolding fill_inv_def using d0 c0 by (simp del: dp_cell.simps)
  then have base: "P 1 (H0, bp0, MinusInf, (0, 0))"
    by (simp add: P_def)
  have step: "P (Suc k) (fill_row rs hs sim d i False k s)"
    if "1 \<le> k" "k < length rs + 1" "P k s" for k s
  proof -
    have kl: "k \<le> length rs" using that(2) by simp
    have fi: "fill_inv rs hs sim d i False k 1 s" using that(3) by (simp add: P_def)
    have m: "score_nonneg (fst (snd (snd s))) \<or> fst (snd (snd s)) = MinusInf"
      using that(3) by (auto simp: P_def)
    from fill_row_local_max [OF fi that(1) kl l(2) m]
    show ?thesis
      unfolding P_def using fill_inv_next_row [OF _ that(1)] by blast
  qed
  have "P (length rs + 1) (fold (fill_row rs hs sim d i False) [1..<length rs + 1]
                             (H0, bp0, MinusInf, (0, 0)))"
    by (rule fold_upt_rule [where P = P, OF base step]) auto
  moreover have "length rs + 1 \<noteq> 1" using l by auto
  ultimately show ?thesis
    unfolding P_def fill_matrices_def by blast
qed

text \<open>
  In local mode, for a non-empty reference and a non-empty hypothesis and every scoring,
  the traceback leaves its loop with \<open>score = 0\<close>: the assertion holds and the aligner
  returns.
\<close>

lemma swa_local_nonempty_returns:
  assumes ne: "rs \<noteq> []" "hs \<noteq> []"
  shows "\<exists>records score. smith_waterman_alignment rs hs sim d i eps False = Inr (records, score)"
proof -
  obtain H0 bp0 where init: "init_matrices i False (length rs) (length hs) = (H0, bp0)"
    by (cases "init_matrices i False (length rs) (length hs)")
  obtain H bp ms m n where
    fill: "fill_matrices rs hs sim d i False (H0, bp0, MinusInf, (0, 0)) = (H, bp, ms, (m, n))"
    by (cases "fill_matrices rs hs sim d i False (H0, bp0, MinusInf, (0, 0))") auto
  note res = fill_matrices_result [OF init fill]
  have b: "m \<le> length rs" "n \<le> length hs"
    using fill_matrices_elem_bound [OF fill] by simp_all
  have "score_nonneg ms"
    using fill_matrices_local_max [OF init ne, of sim d] fill by simp
  then obtain v where v: "ms = Num v" "0 \<le> v"
    by (cases ms) simp_all
  have nonneg: "0 \<le> mget H m n" if "m \<le> length rs" "n \<le> length hs" for m n
    using res(3) [OF that] dp_cell_local_nonneg [of rs hs sim d i m n] by simp
  have h00: "mget H 0 0 = 0"
    using res(3) [of 0 0] by (simp add: init_cell_def)
  have bnd: "mget bp m n = (0, 0)" if "m \<le> length rs" "n \<le> length hs" "m = 0 \<or> n = 0" for m n
    using res(3) [OF that(1,2)] dp_cell_local_boundary [OF that(3), of rs hs sim d i] by simp
  have inner: "mget bp m n \<in> {(m - 1, n - 1), (m - 1, n), (m, n - 1)} \<or> mget bp m n = (0, 0)"
    if "1 \<le> m" "m \<le> length rs" "1 \<le> n" "n \<le> length hs" for m n
    using res(3) [OF that(2,4)] dp_cell_local_bp [OF that(1,3), of rs hs sim d i] by simp
  from traceback_local_returns [of "length rs" "length hs" H bp m n v rs hs eps "[]",
                                OF nonneg h00 bnd inner b v(2)]
  obtain out where "traceback rs hs eps False H bp m n (Num v) [] = Inr (out, Num 0)"
    by auto
  then show ?thesis
    by (simp add: smith_waterman_alignment_def init fill v(1))
qed

end
